theory Spec2Isabelle
  imports Main "HOL-Library.Char_ord" "HOL-Library.List_Lexorder" "HOL-Library.Multiset"
begin

section \<open>JavaScript strings\<close>

text \<open>
  A JavaScript string is a sequence of UTF-16 code units. The model uses \<^typ>\<open>string\<close>:
  a \<^typ>\<open>char\<close> stands for a code unit below 256, which covers ASCII and Latin-1 text.
\<close>

definition dquote :: char where
  "dquote = CHR 0x22"

definition comma :: char where
  "comma = CHR '',''"

definition newline :: char where
  "newline = CHR 0x0A"

definition carriage_return :: char where
  "carriage_return = CHR 0x0D"

text \<open>
  The class \<open>\s\<close> of a regular expression and the characters removed by
  \<open>String.prototype.trim\<close> are the same set (white space and line terminators): below
  256 these are TAB, LF, VT, FF, CR, SPACE and NO-BREAK SPACE.
\<close>

definition is_space :: "char \<Rightarrow> bool" where
  "is_space c \<longleftrightarrow>
     c \<in> set [CHR 0x09, CHR 0x0A, CHR 0x0B, CHR 0x0C, CHR 0x0D, CHR 0x20, CHR 0xA0]"

text \<open>The regular expression atom \<open>.\<close> (no \<open>s\<close> flag) matches everything but a line terminator.\<close>

definition is_dot :: "char \<Rightarrow> bool" where
  "is_dot c \<longleftrightarrow> c \<noteq> newline \<and> c \<noteq> carriage_return"

definition trim :: "string \<Rightarrow> string" where
  "trim s = rev (dropWhile is_space (rev (dropWhile is_space s)))"

text \<open>\<open>s.split(d)\<close> for a one-character separator; the empty string splits into one empty piece.\<close>

fun split_on :: "char \<Rightarrow> string \<Rightarrow> string list" where
  "split_on d [] = [[]]"
| "split_on d (c # cs) =
     (if c = d then [] # split_on d cs
      else (case split_on d cs of [] \<Rightarrow> [[c]] | f # fs \<Rightarrow> (c # f) # fs))"

text \<open>\<open>xs.join(sep)\<close>.\<close>

fun join :: "string \<Rightarrow> string list \<Rightarrow> string" where
  "join sep [] = []"
| "join sep [x] = x"
| "join sep (x # y # ys) = x @ sep @ join sep (y # ys)"

section \<open>The field regular expression of parseCSV\<close>

text \<open>
  \<^verbatim>\<open>line.match(/(".*?"|[^",]+)(?=\s*,|\s*$)/g) || []\<close>

  The lookahead \<^verbatim>\<open>(?=\s*,|\s*$)\<close> at the rest \<open>s\<close> of the line: \<open>\s*\<close> is greedy and gives
  characters back one at a time; either branch is tried for each number \<open>k\<close> of white space
  characters consumed, from all of them down to none.
\<close>

definition lookahead :: "string \<Rightarrow> bool" where
  "lookahead s \<longleftrightarrow>
     (let n = length (takeWhile is_space s) in
        (\<exists>k \<in> set (rev [0..<Suc n]). k < length s \<and> s ! k = comma)
      \<or> (\<exists>k \<in> set (rev [0..<Suc n]). drop k s = []))"

text \<open>
  First alternative, after its opening quote: the lazy \<^verbatim>\<open>.*?\<close> tries to close the field at
  each quote (the closing quote must be followed by the lookahead) before it consumes one more
  character. The result is the matched text after the opening quote.
\<close>

fun close_quote :: "string \<Rightarrow> string option" where
  "close_quote [] = None"
| "close_quote (c # cs) =
     (if c = dquote \<and> lookahead cs then Some [c]
      else if is_dot c then map_option (Cons c) (close_quote cs)
      else None)"

text \<open>
  Second alternative \<^verbatim>\<open>[^",]+\<close>: greedy, at least one character, giving characters back
  until the lookahead holds.
\<close>

definition unquoted_run :: "string \<Rightarrow> string" where
  "unquoted_run s = takeWhile (\<lambda>c. c \<noteq> dquote \<and> c \<noteq> comma) s"

definition unquoted_match :: "string \<Rightarrow> string option" where
  "unquoted_match s =
     (case filter (\<lambda>k. lookahead (drop k s)) (rev [1..<Suc (length (unquoted_run s))]) of
        [] \<Rightarrow> None
      | k # _ \<Rightarrow> Some (take k s))"

text \<open>One attempt of the whole expression at the start of \<open>s\<close>.\<close>

definition match_at :: "string \<Rightarrow> string option" where
  "match_at s =
     (case (case s of [] \<Rightarrow> None
                    | c # cs \<Rightarrow> if c = dquote then map_option (Cons c) (close_quote cs) else None) of
        Some m \<Rightarrow> Some m
      | None \<Rightarrow> unquoted_match s)"

text \<open>
  The global match: the expression is tried at each position from the left; after a match the
  scan continues behind it (behind one character more if the match were empty), after a failure
  at the next character.
\<close>

function regex_match_all :: "string \<Rightarrow> string list" where
  "regex_match_all s =
     (if s = [] then []
      else (case match_at s of
              Some m \<Rightarrow> m # regex_match_all (drop (max 1 (length m)) s)
            | None \<Rightarrow> regex_match_all (tl s)))"
  by pat_completeness auto
termination
  by (relation "measure length") auto

declare regex_match_all.simps [simp del]

text \<open>
  Well-formed fields of a data line, to state what the expression finds in a line made of
  them. An unquoted field has neither quote nor comma. A quoted field \<open>Quoted lead q\<close> is
  the content \<open>q\<close> between two quotes, with no quote inside (the parser knows no escaped
  quotes) and, being part of one line, no line terminator; in front of the opening quote there
  may be text \<open>lead\<close> without quote or comma, such as the blank behind the preceding comma.
  The closing quote is directly followed by the comma or the end of the line.
\<close>

datatype csv_field = Unquoted string | Quoted string string

fun field_text :: "csv_field \<Rightarrow> string" where
  "field_text (Unquoted f) = f"
| "field_text (Quoted lead q) = lead @ dquote # q @ [dquote]"

fun field_content :: "csv_field \<Rightarrow> string" where
  "field_content (Unquoted f) = f"
| "field_content (Quoted lead q) = q"

fun well_formed_field :: "csv_field \<Rightarrow> bool" where
  "well_formed_field (Unquoted f) \<longleftrightarrow> dquote \<notin> set f \<and> comma \<notin> set f"
| "well_formed_field (Quoted lead q) \<longleftrightarrow>
     dquote \<notin> set lead \<and> comma \<notin> set lead \<and> dquote \<notin> set q \<and> list_all is_dot q"

text \<open>
  The matches that a well-formed field gives: none for an empty unquoted field, the field
  itself for another unquoted field, the quotes with the content for a quoted field.
\<close>

fun field_match :: "csv_field \<Rightarrow> string list" where
  "field_match (Unquoted f) = (if f = [] then [] else [f])"
| "field_match (Quoted lead q) = [dquote # q @ [dquote]]"

definition line_of_fields :: "csv_field list \<Rightarrow> string" where
  "line_of_fields flds = join [comma] (map field_text flds)"

section \<open>Plain objects used as dictionaries\<close>

text \<open>
  An object created by \<open>{}\<close> is modelled by its own properties, in the order of their creation.
  Its prototype is \<open>Object.prototype\<close>, whose properties are inherited: eleven functions and the
  accessor \<open>__proto__\<close>.
\<close>

type_synonym 'v js_obj = "(string \<times> 'v) list"

definition proto_functions :: "string list" where
  "proto_functions =
     [''constructor'', ''__defineGetter__'', ''__defineSetter__'', ''hasOwnProperty'',
      ''__lookupGetter__'', ''__lookupSetter__'', ''isPrototypeOf'', ''propertyIsEnumerable'',
      ''toString'', ''valueOf'', ''toLocaleString'']"

definition proto_names :: "string list" where
  "proto_names = ''__proto__'' # proto_functions"

text \<open>Creating or overwriting an own property keeps the position of an existing key.\<close>

fun obj_set :: "'v js_obj \<Rightarrow> string \<Rightarrow> 'v \<Rightarrow> 'v js_obj" where
  "obj_set [] k v = [(k, v)]"
| "obj_set ((k', v') # kvs) k v =
     (if k' = k then (k, v) # kvs else (k', v') # obj_set kvs k v)"

text \<open>
  \<open>obj[key] = value\<close> for a primitive value: the setter of \<open>__proto__\<close> ignores a value that
  is neither an object nor null; every other key becomes an own property.
\<close>

definition assign_primitive :: "'v js_obj \<Rightarrow> string \<Rightarrow> 'v \<Rightarrow> 'v js_obj" where
  "assign_primitive obj k v = (if k = ''__proto__'' then obj else obj_set obj k v)"

text \<open>
  \<open>obj[key] = value\<close> for an object value: on \<open>__proto__\<close> the setter replaces the
  prototype and creates no own property.
\<close>

definition assign_object :: "'v js_obj \<Rightarrow> string \<Rightarrow> 'v \<Rightarrow> 'v js_obj" where
  "assign_object obj k v = (if k = ''__proto__'' then obj else obj_set obj k v)"

text \<open>\<open>obj[key]\<close>: the own property, else what \<open>Object.prototype\<close> provides, else \<open>undefined\<close>.\<close>

datatype 'v lookup = Own 'v | Inherited_function string | Inherited_proto | Undefined

definition js_get :: "'v js_obj \<Rightarrow> string \<Rightarrow> 'v lookup" where
  "js_get obj k =
     (case map_of obj k of
        Some v \<Rightarrow> Own v
      | None \<Rightarrow> if k = ''__proto__'' then Inherited_proto
                else if k \<in> set proto_functions then Inherited_function k
                else Undefined)"

text \<open>\<open>key in obj\<close>: own or inherited.\<close>

definition js_in :: "string \<Rightarrow> 'v js_obj \<Rightarrow> bool" where
  "js_in k obj \<longleftrightarrow> k \<in> fst ` set obj \<or> k \<in> set proto_names"

section \<open>parseCSV\<close>

type_synonym csv_row = "string js_obj"

text \<open>\<^verbatim>\<open>values[index] ? values[index].replace(/"/g, '').trim() : ''\<close>\<close>

definition field_value :: "string list \<Rightarrow> nat \<Rightarrow> string" where
  "field_value values index =
     (if index < length values \<and> values ! index \<noteq> []
      then trim (filter (\<lambda>c. c \<noteq> dquote) (values ! index))
      else [])"

definition build_entry :: "string list \<Rightarrow> string list \<Rightarrow> csv_row" where
  "build_entry header values =
     fold (\<lambda>(index, key) entry. assign_primitive entry key (field_value values index))
          (zip [0..<length header] header) []"

definition csv_lines :: "string \<Rightarrow> string list" where
  "csv_lines csvText =
     filter (\<lambda>line. trim line \<noteq> [])
            (split_on newline (filter (\<lambda>c. c \<noteq> carriage_return) csvText))"

definition parseCSV :: "string \<Rightarrow> csv_row list" where
  "parseCSV csvText =
     (if csvText = [] then []
      else (let lines = csv_lines csvText in
            if length lines < 2 then []
            else (let header = map trim (split_on comma (hd lines)) in
                  map (\<lambda>line. build_entry header (regex_match_all line)) (tl lines))))"

section \<open>Upload validation (handleFileUpload)\<close>

datatype js_exn = Error string | TypeError

definition requiredColumns :: "string list" where
  "requiredColumns =
     [''Ad Group Name'', ''Ad Campaign Name'', ''Company ICP Priority for Contacts'',
      ''Lifecycle Stage'', ''Job Title'', ''Department'']"

definition missingColumns :: "csv_row \<Rightarrow> string list" where
  "missingColumns firstRow = filter (\<lambda>col. \<not> js_in col firstRow) requiredColumns"

text \<open>The two checks between \<open>parseCSV\<close> and \<open>setRawData\<close>; a \<open>throw\<close> is the left injection.\<close>

definition validate :: "csv_row list \<Rightarrow> js_exn + unit" where
  "validate parsedData =
     (if length parsedData = 0 then Inl (Error ''CSV file is empty or invalid.'')
      else (let firstRow = hd parsedData;
                missing = missingColumns firstRow in
            if length missing > 0
            then Inl (Error (''CSV is missing columns: '' @ join '', '' missing))
            else Inr ()))"

section \<open>View state\<close>

datatype dimension = AdGroupName | AdCampaignName

fun dimension_column :: "dimension \<Rightarrow> string" where
  "dimension_column AdGroupName = ''Ad Group Name''"
| "dimension_column AdCampaignName = ''Ad Campaign Name''"

datatype drill_down = DrillNone | Icp | Lifecycle | JobTitle | Department | Combined

record cell =
  cell_primaryValue :: string
  cell_drillDownKey :: string

record view_state =
  primaryDimension :: dimension
  drillDown :: drill_down
  expandedCell :: "cell option"

definition handleCellClick :: "string \<Rightarrow> string \<Rightarrow> view_state \<Rightarrow> view_state" where
  "handleCellClick primaryValue drillDownKey st =
     (case expandedCell st of
        Some c \<Rightarrow>
          if cell_primaryValue c = primaryValue \<and> cell_drillDownKey c = drillDownKey
          then st\<lparr>expandedCell := None\<rparr>
          else st\<lparr>expandedCell :=
                 Some \<lparr>cell_primaryValue = primaryValue, cell_drillDownKey = drillDownKey\<rparr>\<rparr>
      | None \<Rightarrow>
          st\<lparr>expandedCell :=
               Some \<lparr>cell_primaryValue = primaryValue, cell_drillDownKey = drillDownKey\<rparr>\<rparr>)"

definition handleDrillDownChange :: "drill_down \<Rightarrow> view_state \<Rightarrow> view_state" where
  "handleDrillDownChange d st = st\<lparr>drillDown := d, expandedCell := None\<rparr>"

section \<open>Aggregation (the tableHeaders / tableRows memo)\<close>

text \<open>
  \<open>row[name]\<close> for a column name: the cell text, or \<open>undefined\<close> (\<open>None\<close>). It is only
  used at the six required column names, none of which \<open>Object.prototype\<close> defines.
\<close>

definition column :: "csv_row \<Rightarrow> string \<Rightarrow> string option" where
  "column row name = map_of row name"

fun getDrillDownKey :: "drill_down \<Rightarrow> csv_row \<Rightarrow> string option" where
  "getDrillDownKey Icp row = column row ''Company ICP Priority for Contacts''"
| "getDrillDownKey Lifecycle row = column row ''Lifecycle Stage''"
| "getDrillDownKey JobTitle row = column row ''Job Title''"
| "getDrillDownKey Department row = column row ''Department''"
| "getDrillDownKey _ row = None"

text \<open>A key is truthy when it is a non-empty string (\<open>undefined\<close>, \<open>null\<close> and \<open>''\<close> are falsy).\<close>

definition truthy :: "string option \<Rightarrow> bool" where
  "truthy key \<longleftrightarrow> (case key of None \<Rightarrow> False | Some k \<Rightarrow> k \<noteq> [])"

text \<open>
  \<^verbatim>\<open>if (!acc[key]) acc[key] = []; acc[key].push(row);\<close>
  An inherited value is truthy, so no array is created, and it has no \<open>push\<close>: the call
  throws a TypeError.
\<close>

definition push_to_group ::
  "(csv_row list) js_obj \<Rightarrow> string \<Rightarrow> csv_row \<Rightarrow> js_exn + (csv_row list) js_obj" where
  "push_to_group acc key row =
     (case js_get acc key of
        Own rows \<Rightarrow> Inr (obj_set acc key (rows @ [row]))
      | Undefined \<Rightarrow> Inr (obj_set acc key [row])
      | Inherited_function f \<Rightarrow> Inl TypeError
      | Inherited_proto \<Rightarrow> Inl TypeError)"

text \<open>
  The grouping \<open>reduce\<close>, written twice in the source with the same body: for
  \<open>groupedData\<close> (key \<open>row[primaryDimension]\<close>) and for \<open>icpGroups\<close> (key the ICP column).
\<close>

fun group_rows ::
  "(csv_row \<Rightarrow> string option) \<Rightarrow> (csv_row list) js_obj \<Rightarrow> csv_row list
     \<Rightarrow> js_exn + (csv_row list) js_obj" where
  "group_rows keyOf acc [] = Inr acc"
| "group_rows keyOf acc (row # rows) =
     (if \<not> truthy (keyOf row) then group_rows keyOf acc rows
      else (case push_to_group acc (the (keyOf row)) row of
              Inl e \<Rightarrow> Inl e
            | Inr acc' \<Rightarrow> group_rows keyOf acc' rows))"

text \<open>
  The value of a breakdown entry: a number, or the text that \<open>+ 1\<close> produces from an
  inherited function, i.e. the function's source text followed by one \<open>1\<close> per increment.
\<close>

datatype count_value = Num nat | Function_text string nat

text \<open>
  \<open>String(f)\<close> for the built-in function found at key \<open>k\<close> of \<open>Object.prototype\<close>, in the
  form \<open>function name() { [native code] }\<close>; the function at \<open>constructor\<close> is \<open>Object\<close>.
\<close>

definition function_source :: "string \<Rightarrow> string" where
  "function_source k =
     ''function '' @ (if k = ''constructor'' then ''Object'' else k) @ ''() { [native code] }''"

text \<open>
  \<^verbatim>\<open>acc[key] = (acc[key] || 0) + 1\<close>
  A number counts up; an inherited function is truthy and \<open>+ 1\<close> appends \<open>1\<close> to its source
  text, as it does again to that text on the next increment; the inherited \<open>__proto__\<close> gives
  the text \<open>[object Object]1\<close>, which the setter of \<open>__proto__\<close> ignores.
\<close>

definition increment :: "count_value js_obj \<Rightarrow> string \<Rightarrow> count_value js_obj" where
  "increment acc key =
     (case js_get acc key of
        Own (Num n) \<Rightarrow> obj_set acc key (Num (n + 1))
      | Own (Function_text f n) \<Rightarrow> obj_set acc key (Function_text f (n + 1))
      | Inherited_function f \<Rightarrow> obj_set acc key (Function_text f 1)
      | Inherited_proto \<Rightarrow> acc
      | Undefined \<Rightarrow> obj_set acc key (Num 1))"

text \<open>
  The counting \<open>reduce\<close>, written twice in the source with the same body: for the
  single-column breakdown and for \<open>lifecycleDistribution\<close>.
\<close>

definition count_by :: "(csv_row \<Rightarrow> string option) \<Rightarrow> csv_row list \<Rightarrow> count_value js_obj" where
  "count_by keyOf contacts =
     fold (\<lambda>contact acc. if truthy (keyOf contact) then increment acc (the (keyOf contact)) else acc)
          contacts []"

text \<open>
  \<open>Object.entries\<close>: the own keys that are array indices (canonical decimal numerals below
  \<open>2^32 - 1\<close>) come first, in ascending numeric order, then the other keys in the order of
  their creation.
\<close>

definition is_digit :: "char \<Rightarrow> bool" where
  "is_digit c \<longleftrightarrow> c \<in> set ''0123456789''"

definition digits_value :: "string \<Rightarrow> nat" where
  "digits_value s = foldl (\<lambda>acc c. 10 * acc + (of_char c - 48)) 0 s"

text \<open>
  A canonical numeral is \<open>0\<close> or a digit string without a leading zero. It is below
  \<open>2^32 - 1 = 4294967295\<close> when it has fewer than ten digits, or ten digits and is at most
  \<open>4294967294\<close> (for digit strings of one length the order of strings is the order of numbers).
\<close>

definition canonical_numeral :: "string \<Rightarrow> bool" where
  "canonical_numeral k \<longleftrightarrow> k \<noteq> [] \<and> list_all is_digit k \<and> (k = ''0'' \<or> hd k \<noteq> CHR ''0'')"

definition array_index :: "string \<Rightarrow> nat option" where
  "array_index k =
     (if canonical_numeral k \<and> (length k < 10 \<or> (length k = 10 \<and> k \<le> ''4294967294''))
      then Some (digits_value k) else None)"

definition index_of_key :: "string \<Rightarrow> nat" where
  "index_of_key k = (case array_index k of Some i \<Rightarrow> i | None \<Rightarrow> 0)"

definition object_entries :: "'v js_obj \<Rightarrow> (string \<times> 'v) list" where
  "object_entries obj =
     sort_key (\<lambda>(k, v). index_of_key k) (filter (\<lambda>(k, v). array_index k \<noteq> None) obj)
     @ filter (\<lambda>(k, v). array_index k = None) obj"

record icp_bucket =
  count :: nat
  lifecycleDistribution :: "count_value js_obj"

text \<open>
  \<open>rowData.breakdown\<close>: an object from keys to counts (\<open>{}\<close> without drill-down), or in
  combined mode an object from ICP keys to buckets.
\<close>

datatype breakdown = Flat "count_value js_obj" | Nested "icp_bucket js_obj"

record aggregate_row =
  primaryValue :: string
  total :: nat
  breakdown :: breakdown

definition icp_column :: string where
  "icp_column = ''Company ICP Priority for Contacts''"

definition lifecycle_column :: string where
  "lifecycle_column = ''Lifecycle Stage''"

definition nested_breakdown :: "(csv_row list) js_obj \<Rightarrow> icp_bucket js_obj" where
  "nested_breakdown icpGroups =
     fold (\<lambda>(icpKey, icpContacts) acc.
             assign_object acc icpKey
               \<lparr>count = length icpContacts,
                lifecycleDistribution = count_by (\<lambda>contact. column contact lifecycle_column) icpContacts\<rparr>)
          (object_entries icpGroups) []"

definition build_row :: "drill_down \<Rightarrow> string \<times> csv_row list \<Rightarrow> js_exn + aggregate_row" where
  "build_row dd entry =
     (case entry of (pv, contacts) \<Rightarrow>
        if dd \<noteq> DrillNone \<and> dd \<noteq> Combined
        then Inr \<lparr>primaryValue = pv, total = length contacts,
                  breakdown = Flat (count_by (getDrillDownKey dd) contacts)\<rparr>
        else if dd = Combined
        then (case group_rows (\<lambda>contact. column contact icp_column) [] contacts of
                Inl e \<Rightarrow> Inl e
              | Inr icpGroups \<Rightarrow>
                  Inr \<lparr>primaryValue = pv, total = length contacts,
                       breakdown = Nested (nested_breakdown icpGroups)\<rparr>)
        else Inr \<lparr>primaryValue = pv, total = length contacts, breakdown = Flat []\<rparr>)"

text \<open>\<open>xs.map(f)\<close> where \<open>f\<close> may throw: the first exception ends the map.\<close>

fun map_throwing :: "('a \<Rightarrow> js_exn + 'b) \<Rightarrow> 'a list \<Rightarrow> js_exn + 'b list" where
  "map_throwing f [] = Inr []"
| "map_throwing f (x # xs) =
     (case f x of
        Inl e \<Rightarrow> Inl e
      | Inr y \<Rightarrow> (case map_throwing f xs of Inl e \<Rightarrow> Inl e | Inr ys \<Rightarrow> Inr (y # ys)))"

text \<open>\<open>Array.from(new Set(xs))\<close>: the distinct elements in the order of their first occurrence.\<close>

definition first_occurrences :: "'a list \<Rightarrow> 'a list" where
  "first_occurrences xs = rev (remdups (rev xs))"

text \<open>\<open>xs.filter(Boolean)\<close> on keys.\<close>

definition truthy_keys :: "string option list \<Rightarrow> string list" where
  "truthy_keys ks = map the (filter truthy ks)"

text \<open>The default \<open>sort()\<close> orders strings by their code units, which is the order of \<^typ>\<open>string\<close>.\<close>

definition dynamicHeaders :: "csv_row list \<Rightarrow> drill_down \<Rightarrow> string list" where
  "dynamicHeaders rawData dd =
     (if dd \<noteq> DrillNone \<and> dd \<noteq> Combined
      then sort (first_occurrences (truthy_keys (map (getDrillDownKey dd) rawData)))
      else if dd = Combined
      then sort (first_occurrences (truthy_keys (map (\<lambda>row. column row icp_column) rawData)))
      else [])"

definition aggregate ::
  "csv_row list \<Rightarrow> dimension \<Rightarrow> drill_down \<Rightarrow> js_exn + (string list \<times> aggregate_row list)" where
  "aggregate rawData dim dd =
     (if length rawData = 0 then Inr ([], [])
      else (case group_rows (\<lambda>row. column row (dimension_column dim)) [] rawData of
              Inl e \<Rightarrow> Inl e
            | Inr groupedData \<Rightarrow>
                (case map_throwing (build_row dd) (object_entries groupedData) of
                   Inl e \<Rightarrow> Inl e
                 | Inr finalRows \<Rightarrow>
                     Inr (dimension_column dim # ''Total Contacts'' # dynamicHeaders rawData dd,
                          finalRows))))"

section \<open>The data summary of generateInsights\<close>

text \<open>The decimal text of a natural number, as a template prints it.\<close>

function show_nat :: "nat \<Rightarrow> string" where
  "show_nat n =
     (if n < 10 then [''0123456789'' ! n]
      else show_nat (n div 10) @ [''0123456789'' ! (n mod 10)])"
  by pat_completeness auto
termination
  by (relation "measure id") auto

declare show_nat.simps [simp del]

text \<open>
  Numbers are IEEE 754 doubles. A count and a total are integers below \<open>2^53\<close> and so exact;
  the quotient and the product with 100 are rounded to the nearest double, ties to even. A
  non-negative double is represented by a fraction \<open>(p, q)\<close> of naturals. The results here lie
  far inside the normal range, so there is neither underflow nor overflow.
\<close>

definition round_nearest_even :: "nat \<Rightarrow> nat \<Rightarrow> nat" where
  "round_nearest_even a b =
     (let q = a div b; r = a mod b in
      if 2 * r < b \<or> (2 * r = b \<and> even q) then q else q + 1)"

text \<open>The least \<open>s\<close> with \<open>2^52 \<le> a * 2^s / b\<close>, and the least \<open>d\<close> with \<open>a / (b * 2^d) < 2^53\<close>.\<close>

function scale_up :: "nat \<Rightarrow> nat \<Rightarrow> nat" where
  "scale_up a b = (if a = 0 \<or> 2 ^ 52 * b \<le> a then 0 else Suc (scale_up (2 * a) b))"
  by pat_completeness auto
termination
  by (relation "measure (\<lambda>(a, b). 2 ^ 52 * b - a)") auto

function scale_down :: "nat \<Rightarrow> nat \<Rightarrow> nat" where
  "scale_down a b = (if b = 0 \<or> a < 2 ^ 53 * b then 0 else Suc (scale_down a (2 * b)))"
  by pat_completeness auto
termination
  by (relation "measure (\<lambda>(a, b). Suc a - b)") auto

declare scale_up.simps [simp del] scale_down.simps [simp del]

text \<open>The double nearest to \<open>a / b\<close>: a 53-bit significand \<open>m\<close> with \<open>2^52 \<le> m \<le> 2^53\<close>.\<close>

definition to_double :: "nat \<Rightarrow> nat \<Rightarrow> nat \<times> nat" where
  "to_double a b =
     (if a = 0 then (0, 1)
      else if a < 2 ^ 52 * b
      then (let s = scale_up a b in (round_nearest_even (a * 2 ^ s) b, 2 ^ s))
      else (let d = scale_down a b in (round_nearest_even a (b * 2 ^ d) * 2 ^ d, 1)))"

text \<open>
  \<open>x.toFixed(1)\<close> for \<open>x = p / q\<close>: the integer \<open>n\<close> with \<open>n / 10\<close> nearest to \<open>x\<close>, the larger
  one of two, printed with one digit behind the point.
\<close>

definition toFixed1 :: "nat \<times> nat \<Rightarrow> string" where
  "toFixed1 x =
     (case x of (p, q) \<Rightarrow>
        let n = (20 * p + q) div (2 * q) in show_nat (n div 10) @ ''.'' @ show_nat (n mod 10))"

text \<open>
  The \<open>count\<close> of one summary cell: a number, or a value that is not a number, which the
  template prints as its text and whose percentage is \<open>NaN\<close>.
\<close>

datatype shown_count = Count nat | Not_a_number string

text \<open>
  \<^verbatim>\<open>drillDown === 'combined' ? (row.breakdown[header] ? row.breakdown[header].count : 0)
                             : (row.breakdown[header] || 0)\<close>
  In combined mode an inherited value is truthy and has no \<open>count\<close>, likewise a non-zero
  number or a text; in the other modes an inherited value or a bucket is the count itself.
\<close>

definition object_text :: string where
  "object_text = ''[object Object]''"

definition summary_count :: "drill_down \<Rightarrow> aggregate_row \<Rightarrow> string \<Rightarrow> shown_count" where
  "summary_count dd row header =
     (if dd = Combined
      then (case breakdown row of
              Nested b \<Rightarrow>
                (case js_get b header of
                   Own bucket \<Rightarrow> Count (count bucket)
                 | Undefined \<Rightarrow> Count 0
                 | Inherited_function f \<Rightarrow> Not_a_number ''undefined''
                 | Inherited_proto \<Rightarrow> Not_a_number ''undefined'')
            | Flat b \<Rightarrow>
                (case js_get b header of
                   Own (Num n) \<Rightarrow> if n = 0 then Count 0 else Not_a_number ''undefined''
                 | Own (Function_text f n) \<Rightarrow> Not_a_number ''undefined''
                 | Undefined \<Rightarrow> Count 0
                 | Inherited_function f \<Rightarrow> Not_a_number ''undefined''
                 | Inherited_proto \<Rightarrow> Not_a_number ''undefined''))
      else (case breakdown row of
              Flat b \<Rightarrow>
                (case js_get b header of
                   Own (Num n) \<Rightarrow> Count n
                 | Own (Function_text f n) \<Rightarrow>
                     Not_a_number (function_source f @ replicate n (CHR ''1''))
                 | Undefined \<Rightarrow> Count 0
                 | Inherited_function f \<Rightarrow> Not_a_number (function_source f)
                 | Inherited_proto \<Rightarrow> Not_a_number object_text)
            | Nested b \<Rightarrow>
                (case js_get b header of
                   Own bucket \<Rightarrow> Not_a_number object_text
                 | Undefined \<Rightarrow> Count 0
                 | Inherited_function f \<Rightarrow> Not_a_number (function_source f)
                 | Inherited_proto \<Rightarrow> Not_a_number object_text)))"

text \<open>\<^verbatim>\<open>row.total > 0 ? ((count / row.total) * 100).toFixed(1) : 0\<close>, as the template prints it.\<close>

definition percentage :: "nat \<Rightarrow> shown_count \<Rightarrow> string" where
  "percentage rowTotal c =
     (if rowTotal > 0
      then (case c of
              Count n \<Rightarrow>
                (case to_double n rowTotal of (p, q) \<Rightarrow> toFixed1 (to_double (p * 100) q))
            | Not_a_number t \<Rightarrow> ''NaN'')
      else ''0'')"

definition show_count :: "shown_count \<Rightarrow> string" where
  "show_count c = (case c of Count n \<Rightarrow> show_nat n | Not_a_number t \<Rightarrow> t)"

text \<open>\<^verbatim>\<open>`${header}: ${count} (${percentage}%)`\<close>\<close>

definition summary_cell :: "drill_down \<Rightarrow> aggregate_row \<Rightarrow> string \<Rightarrow> string" where
  "summary_cell dd row header =
     (let c = summary_count dd row header in
      header @ '': '' @ show_count c @ '' ('' @ percentage (total row) c @ ''%)'')"

text \<open>\<^verbatim>\<open>`${row.primaryValue} (Total: ${row.total}): ${breakdown || 'No breakdown'}`\<close>\<close>

definition summary_line :: "drill_down \<Rightarrow> string list \<Rightarrow> aggregate_row \<Rightarrow> string" where
  "summary_line dd tableHeaders row =
     (let b = join '', '' (map (summary_cell dd row) (drop 2 tableHeaders)) in
      primaryValue row @ '' (Total: '' @ show_nat (total row) @ ''): ''
        @ (if b = [] then ''No breakdown'' else b))"

definition dataSummary :: "drill_down \<Rightarrow> string list \<Rightarrow> aggregate_row list \<Rightarrow> string" where
  "dataSummary dd tableHeaders tableRows =
     join [newline] (map (summary_line dd tableHeaders) tableRows)"

section \<open>Notions used in the statements\<close>

text \<open>
  The records of a row's group, and the key by which a record is counted in the breakdown of
  its row (in combined mode the outer level counts by the ICP column).
\<close>

definition group_records :: "csv_row list \<Rightarrow> dimension \<Rightarrow> string \<Rightarrow> csv_row list" where
  "group_records rawData dim pv = filter (\<lambda>r. column r (dimension_column dim) = Some pv) rawData"

fun breakdown_key :: "drill_down \<Rightarrow> csv_row \<Rightarrow> string option" where
  "breakdown_key Combined row = column row icp_column"
| "breakdown_key dd row = getDrillDownKey dd row"

text \<open>The sum of the counts of a breakdown; there is none when a value is not a number.\<close>

fun count_number :: "count_value \<Rightarrow> nat" where
  "count_number (Num n) = n"
| "count_number (Function_text f n) = 0"

fun is_number :: "count_value \<Rightarrow> bool" where
  "is_number (Num n) = True"
| "is_number (Function_text f n) = False"

definition sum_counts :: "count_value js_obj \<Rightarrow> nat option" where
  "sum_counts c =
     (if list_all (\<lambda>(k, v). is_number v) c
      then Some (sum_list (map (\<lambda>(k, v). count_number v) c)) else None)"

fun breakdown_sum :: "breakdown \<Rightarrow> nat option" where
  "breakdown_sum (Flat c) = sum_counts c"
| "breakdown_sum (Nested b) = Some (sum_list (map (\<lambda>(k, bucket). count bucket) b))"

text \<open>
  Every key of a breakdown is a non-empty string with a count of at least one.
\<close>

definition positive_counts :: "count_value js_obj \<Rightarrow> bool" where
  "positive_counts c \<longleftrightarrow> list_all (\<lambda>(k, v). k \<noteq> [] \<and> is_number v \<and> 1 \<le> count_number v) c"

fun positive_breakdown :: "breakdown \<Rightarrow> bool" where
  "positive_breakdown (Flat c) \<longleftrightarrow> positive_counts c"
| "positive_breakdown (Nested b) \<longleftrightarrow>
     list_all (\<lambda>(k, bucket). k \<noteq> [] \<and> 1 \<le> count bucket
                 \<and> positive_counts (lifecycleDistribution bucket)) b"

text \<open>
  No cell of a required column is the name of a property of \<open>Object.prototype\<close>.
\<close>

definition plain_cells :: "csv_row list \<Rightarrow> bool" where
  "plain_cells rawData \<longleftrightarrow>
     list_all (\<lambda>row. list_all (\<lambda>name. case column row name of
                                         None \<Rightarrow> True
                                       | Some v \<Rightarrow> v \<notin> set proto_names) requiredColumns) rawData"

text \<open>
  The record that \<open>parseCSV\<close> builds for one data line under the header
  \<open>Ad Group Name,Ad Campaign Name,Company ICP Priority for Contacts,Lifecycle Stage,Job Title,Department\<close>.
\<close>

definition contact ::
  "string \<Rightarrow> string \<Rightarrow> string \<Rightarrow> string \<Rightarrow> string \<Rightarrow> string \<Rightarrow> csv_row" where
  "contact adGroup campaign icp lifecycle jobTitle department =
     [(''Ad Group Name'', adGroup), (''Ad Campaign Name'', campaign),
      (''Company ICP Priority for Contacts'', icp), (''Lifecycle Stage'', lifecycle),
      (''Job Title'', jobTitle), (''Department'', department)]"

text \<open>
  The record that pairs the header names, in their order, with a list of values: the name at
  position \<open>i\<close> gets the value at position \<open>i\<close>, the empty string if there is none.
\<close>

definition record_of :: "string list \<Rightarrow> string list \<Rightarrow> csv_row" where
  "record_of header vals =
     map (\<lambda>i. (header ! i, if i < length vals then vals ! i else [])) [0..<length header]"

text \<open>A line of the text that \<open>parseCSV\<close> keeps: not blank, and no line terminator inside.\<close>

definition plain_line :: "string \<Rightarrow> bool" where
  "plain_line l \<longleftrightarrow> trim l \<noteq> [] \<and> newline \<notin> set l \<and> carriage_return \<notin> set l"

section \<open>Properties of the parser\<close>

lemma not_space_comma [simp]: "\<not> is_space comma"
  by (simp add: is_space_def comma_def)

lemma not_space_dquote [simp]: "\<not> is_space dquote"
  by (simp add: is_space_def dquote_def)

lemma comma_neq_dquote [simp]: "comma \<noteq> dquote" "dquote \<noteq> comma"
  by (simp_all add: comma_def dquote_def)

lemma lookahead_iff:
  "lookahead s \<longleftrightarrow> (case dropWhile is_space s of [] \<Rightarrow> True | c # _ \<Rightarrow> c = comma)"
proof -
  define n where "n = length (takeWhile is_space s)"
  have n_le: "n \<le> length s"
    unfolding n_def by (rule length_takeWhile_le)
  have dw: "dropWhile is_space s = drop n s"
    unfolding n_def by (rule dropWhile_eq_drop)
  have sp: "is_space (s ! k)" if "k < n" for k
    using that unfolding n_def by (metis nth_mem set_takeWhileD takeWhile_nth)
  have A: "(\<exists>k \<in> set (rev [0..<Suc n]). k < length s \<and> s ! k = comma)
             \<longleftrightarrow> (n < length s \<and> s ! n = comma)"
  proof
    assume "\<exists>k \<in> set (rev [0..<Suc n]). k < length s \<and> s ! k = comma"
    then obtain k where "k \<in> set (rev [0..<Suc n])" and k: "k < length s" "s ! k = comma"
      by blast
    then have "k \<le> n" by auto
    moreover have "\<not> k < n" using sp [of k] k by auto
    ultimately have "k = n" by simp
    with k show "n < length s \<and> s ! n = comma" by simp
  next
    assume "n < length s \<and> s ! n = comma"
    then show "\<exists>k \<in> set (rev [0..<Suc n]). k < length s \<and> s ! k = comma" by auto
  qed
  have B: "(\<exists>k \<in> set (rev [0..<Suc n]). drop k s = []) \<longleftrightarrow> n = length s"
    using n_le by auto
  have C: "(case drop n s of [] \<Rightarrow> True | c # _ \<Rightarrow> c = comma)
             \<longleftrightarrow> (n < length s \<and> s ! n = comma) \<or> n = length s"
  proof (cases "n < length s")
    case True
    then have "drop n s = s ! n # drop (Suc n) s" by (simp add: Cons_nth_drop_Suc)
    with True show ?thesis by simp
  next
    case False
    with n_le show ?thesis by simp
  qed
  show ?thesis
    unfolding lookahead_def Let_def n_def [symmetric] dw A B C ..
qed

lemma lookahead_Nil [simp]: "lookahead []"
  by (simp add: lookahead_iff)

lemma lookahead_comma [simp]: "lookahead (comma # rest)"
  by (simp add: lookahead_iff)

lemma lookahead_dquote [simp]: "\<not> lookahead (dquote # rest)"
  by (simp add: lookahead_iff)

lemma close_quote_field:
  assumes "dquote \<notin> set q" "list_all is_dot q" "lookahead rest"
  shows "close_quote (q @ dquote # rest) = Some (q @ [dquote])"
  using assms by (induction q) auto

lemma match_at_quoted:
  assumes "dquote \<notin> set q" "list_all is_dot q" "lookahead rest"
  shows "match_at (dquote # q @ dquote # rest) = Some (dquote # q @ [dquote])"
  using close_quote_field [OF assms] by (simp add: match_at_def)

lemma unquoted_run_field:
  assumes "dquote \<notin> set f" "comma \<notin> set f" "rest = [] \<or> hd rest = comma \<or> hd rest = dquote"
  shows "unquoted_run (f @ rest) = f"
proof -
  have "takeWhile (\<lambda>c. c \<noteq> dquote \<and> c \<noteq> comma) (f @ rest)
          = f @ takeWhile (\<lambda>c. c \<noteq> dquote \<and> c \<noteq> comma) rest"
    using assms(1,2) by (intro takeWhile_append2) auto
  moreover have "takeWhile (\<lambda>c. c \<noteq> dquote \<and> c \<noteq> comma) rest = []"
    using assms(3) by (cases rest) auto
  ultimately show ?thesis by (simp add: unquoted_run_def)
qed

lemma unquoted_match_field:
  assumes "f \<noteq> []" "dquote \<notin> set f" "comma \<notin> set f" "rest = [] \<or> hd rest = comma"
  shows "unquoted_match (f @ rest) = Some f"
proof -
  have run: "unquoted_run (f @ rest) = f"
    using assms by (intro unquoted_run_field) auto
  have la: "lookahead rest"
    using assms(4) by (cases rest) auto
  obtain n where n: "length f = Suc n"
    using assms(1) by (cases f) auto
  have "rev [1..<Suc (length f)] = length f # rev [1..<length f]"
    using n by simp
  then show ?thesis
    using la by (simp add: unquoted_match_def run)
qed

lemma match_at_field:
  assumes "f \<noteq> []" "dquote \<notin> set f" "comma \<notin> set f" "rest = [] \<or> hd rest = comma"
  shows "match_at (f @ rest) = Some f"
proof -
  obtain c cs where f: "f = c # cs" using assms(1) by (cases f) auto
  with assms(2) have "c \<noteq> dquote" by auto
  then show ?thesis
    using unquoted_match_field [OF assms] by (simp add: match_at_def f)
qed

lemma match_at_comma: "match_at (comma # rest) = None"
  by (simp add: match_at_def unquoted_match_def unquoted_run_def)

lemma regex_match_all_Nil [simp]: "regex_match_all [] = []"
  by (simp add: regex_match_all.simps)

lemma regex_match_all_comma [simp]: "regex_match_all (comma # rest) = regex_match_all rest"
  by (subst regex_match_all.simps) (simp add: match_at_comma)

lemma regex_match_all_field:
  assumes "f \<noteq> []" "dquote \<notin> set f" "comma \<notin> set f" "rest = [] \<or> hd rest = comma"
  shows "regex_match_all (f @ rest) = f # regex_match_all rest"
  using assms(1) match_at_field [OF assms]
  by (subst regex_match_all.simps) (simp add: max_def Suc_le_eq)

lemma regex_match_all_quoted:
  assumes "dquote \<notin> set q" "list_all is_dot q" "lookahead rest"
  shows "regex_match_all (dquote # q @ dquote # rest)
           = (dquote # q @ [dquote]) # regex_match_all rest"
  using match_at_quoted [OF assms]
  by (subst regex_match_all.simps) simp

text \<open>Text in front of an opening quote gives no match: the lookahead fails before a quote.\<close>

lemma not_lookahead_before_quote:
  "comma \<notin> set xs \<Longrightarrow> \<not> lookahead (xs @ dquote # rest)"
  by (induction xs) (auto simp: lookahead_iff)

lemma match_at_before_quote:
  assumes "dquote \<notin> set (c # lead)" "comma \<notin> set (c # lead)"
  shows "match_at ((c # lead) @ dquote # rest) = None"
proof -
  have run: "unquoted_run ((c # lead) @ dquote # rest) = c # lead"
    using assms by (intro unquoted_run_field) auto
  have "\<not> lookahead (drop k ((c # lead) @ dquote # rest))"
    if "k \<in> set (rev [1..<Suc (length (c # lead))])" for k
  proof -
    from that have "k \<le> length (c # lead)" by auto
    then have "drop k ((c # lead) @ dquote # rest) = drop k (c # lead) @ dquote # rest"
      using drop_append [of k "c # lead" "dquote # rest"] by simp
    moreover have "comma \<notin> set (drop k (c # lead))"
      using assms(2) by (meson in_set_dropD)
    ultimately show ?thesis
      by (simp only: not_lookahead_before_quote not_False_eq_True)
  qed
  then have "filter (\<lambda>k. lookahead (drop k ((c # lead) @ dquote # rest)))
               (rev [1..<Suc (length (c # lead))]) = []"
    by (simp only: filter_empty_conv) blast
  then have "unquoted_match ((c # lead) @ dquote # rest) = None"
    by (simp only: unquoted_match_def run) simp
  moreover have "c \<noteq> dquote"
    using assms(1) by auto
  ultimately show ?thesis
    by (simp add: match_at_def)
qed

lemma regex_match_all_before_quote:
  assumes "dquote \<notin> set lead" "comma \<notin> set lead"
  shows "regex_match_all (lead @ dquote # rest) = regex_match_all (dquote # rest)"
  using assms
proof (induction lead)
  case Nil
  then show ?case by simp
next
  case (Cons c lead)
  have "match_at ((c # lead) @ dquote # rest) = None"
    using Cons.prems by (rule match_at_before_quote)
  then have "regex_match_all ((c # lead) @ dquote # rest) = regex_match_all (lead @ dquote # rest)"
    by (subst regex_match_all.simps) simp
  with Cons show ?case by simp
qed

text \<open>One well-formed field in front of the rest of the line.\<close>

lemma regex_match_all_csv_field:
  assumes "well_formed_field fld" "rest = [] \<or> hd rest = comma"
  shows "regex_match_all (field_text fld @ rest) = field_match fld @ regex_match_all rest"
proof (cases fld)
  case (Unquoted f)
  show ?thesis
  proof (cases "f = []")
    case True
    with Unquoted show ?thesis by simp
  next
    case False
    with Unquoted assms regex_match_all_field [of f rest] show ?thesis by simp
  qed
next
  case (Quoted lead q)
  have "lookahead rest" using assms(2) by (cases rest) auto
  with Quoted assms(1) regex_match_all_quoted [of q rest]
    regex_match_all_before_quote [of lead "q @ dquote # rest"]
  show ?thesis by simp
qed

lemma regex_match_all_line:
  assumes "list_all well_formed_field flds"
  shows "regex_match_all (line_of_fields flds) = concat (map field_match flds)"
  using assms unfolding line_of_fields_def
proof (induction flds rule: induct_list012)
  case 1
  then show ?case by simp
next
  case (2 x)
  with regex_match_all_csv_field [of x "[]"] show ?case by simp
next
  case (3 x y zs)
  have "regex_match_all (field_text x @ comma # join [comma] (map field_text (y # zs)))
          = field_match x @ regex_match_all (comma # join [comma] (map field_text (y # zs)))"
    using 3(3) by (intro regex_match_all_csv_field) auto
  with 3 show ?case by simp
qed

lemma join_Cons: "ys \<noteq> [] \<Longrightarrow> join sep (x # ys) = x @ sep @ join sep ys"
  by (cases ys) simp_all

lemma line_of_fields_append:
  "line_of_fields (xs @ ys) =
     (if xs = [] then line_of_fields ys else if ys = [] then line_of_fields xs
      else line_of_fields xs @ comma # line_of_fields ys)"
  unfolding line_of_fields_def
  by (induction xs rule: induct_list012) (auto simp: join_Cons)

lemma filter_no_dquote: "dquote \<notin> set q \<Longrightarrow> filter (\<lambda>c. c \<noteq> dquote) q = q"
  by (induction q) auto

lemma trim_content:
  assumes "well_formed_field fld" "t \<in> set (field_match fld)"
  shows "t \<noteq> [] \<and> trim (filter (\<lambda>c. c \<noteq> dquote) t) = trim (field_content fld)"
  using assms by (cases fld) (auto simp: filter_no_dquote split: if_splits)

lemma in_set_dropWhile: "x \<in> set xs \<Longrightarrow> \<not> P x \<Longrightarrow> x \<in> set (dropWhile P xs)"
  by (induction xs) auto

lemma in_set_trim: "x \<in> set s \<Longrightarrow> \<not> is_space x \<Longrightarrow> x \<in> set (trim s)"
  unfolding trim_def by (simp add: in_set_dropWhile)

lemma field_value_token:
  assumes "i < length values" "values ! i \<in> set (field_match fld)" "well_formed_field fld"
  shows "field_value values i = trim (field_content fld)"
  using assms(1) trim_content [OF assms(3,2)] by (simp add: field_value_def)

text \<open>
  C6. In a data line of well-formed fields, a quoted field with a comma inside, followed by a
  comma and a further non-empty field, is found as exactly two matches: the quoted field and the
  field behind it. The value stored for the quoted field is its content without the quotes,
  trimmed, and still has the comma.
\<close>

theorem quoted_comma_field:
  assumes "list_all well_formed_field pre" and "list_all well_formed_field post"
    and "well_formed_field (Quoted lead q)" and "comma \<in> set q"
    and "well_formed_field c" and "field_match c = [m]"
  shows "(let values = regex_match_all (line_of_fields (pre @ [Quoted lead q, c] @ post));
              before = concat (map field_match pre);
              behind = concat (map field_match post)
          in values = before @ [dquote # q @ [dquote], m] @ behind
             \<and> field_value values (length before) = trim q
             \<and> field_value values (Suc (length before)) = trim (field_content c)
             \<and> comma \<in> set (trim q))"
proof -
  define before where "before = concat (map field_match pre)"
  define behind where "behind = concat (map field_match post)"
  define vals where "vals = regex_match_all (line_of_fields (pre @ [Quoted lead q, c] @ post))"
  have "list_all well_formed_field (pre @ [Quoted lead q, c] @ post)"
    using assms by simp
  then have vals: "vals = before @ [dquote # q @ [dquote], m] @ behind"
    unfolding vals_def before_def behind_def
    using assms(6) by (simp add: regex_match_all_line)
  have "field_value vals (length before) = trim (field_content (Quoted lead q))"
    using assms(3) by (intro field_value_token) (simp_all add: vals)
  moreover have "field_value vals (Suc (length before)) = trim (field_content c)"
    using assms(5,6) by (intro field_value_token) (simp_all add: vals nth_append)
  moreover have "comma \<in> set (trim q)"
    using assms(4) by (simp add: in_set_trim)
  ultimately show ?thesis
    using vals unfolding Let_def vals_def before_def behind_def by simp
qed

theorem quoted_comma_field_witness:
  "list_all well_formed_field [Unquoted ''x''] \<and> list_all well_formed_field []
   \<and> well_formed_field (Quoted '' '' ''a,b'') \<and> comma \<in> set ''a,b''
   \<and> well_formed_field (Unquoted ''c'') \<and> field_match (Unquoted ''c'') = [''c'']
   \<and> regex_match_all (''x, '' @ [dquote] @ ''a,b'' @ [dquote] @ '',c'')
       = [''x'', [dquote] @ ''a,b'' @ [dquote], ''c'']
   \<and> field_value (regex_match_all (''x, '' @ [dquote] @ ''a,b'' @ [dquote] @ '',c'')) 1 = ''a,b''
   \<and> field_value (regex_match_all (''x, '' @ [dquote] @ ''a,b'' @ [dquote] @ '',c'')) 2 = ''c''"
  using quoted_comma_field [of "[Unquoted ''x'']" "[]" "'' ''" "''a,b''" "Unquoted ''c''" "''c''"]
  by (simp add: line_of_fields_def Let_def comma_def dquote_def is_dot_def newline_def
      carriage_return_def trim_def is_space_def field_value_def)

text \<open>An assignment to a key that the object does not have appends the key.\<close>

lemma obj_set_fresh: "k \<notin> fst ` set obj \<Longrightarrow> obj_set obj k v = obj @ [(k, v)]"
  by (induction obj) auto

text \<open>The record built from a header of distinct names.\<close>

lemma fold_assign_primitive_fresh:
  assumes "distinct (map snd xs)" and "snd ` set xs \<inter> fst ` set acc = {}"
    and "''__proto__'' \<notin> snd ` set xs"
  shows "fold (\<lambda>(index, key) entry. assign_primitive entry key (f index)) xs acc
           = acc @ map (\<lambda>(index, key). (key, f index)) xs"
  using assms
proof (induction xs arbitrary: acc)
  case Nil
  then show ?case by simp
next
  case (Cons x xs)
  obtain i k where x: "x = (i, k)" by (cases x)
  have fresh: "k \<notin> fst ` set acc" and np: "k \<noteq> ''__proto__''"
    using Cons.prems x by auto
  have step: "assign_primitive acc k (f i) = acc @ [(k, f i)]"
    using fresh np by (simp add: assign_primitive_def obj_set_fresh)
  have d: "distinct (map snd xs)" and kx: "k \<notin> snd ` set xs"
    and p: "''__proto__'' \<notin> snd ` set xs"
    using Cons.prems x by auto
  have "snd ` set xs \<inter> fst ` set (acc @ [(k, f i)]) = {}"
  proof -
    have "y \<notin> fst ` set (acc @ [(k, f i)])" if "y \<in> snd ` set xs" for y
    proof -
      from that Cons.prems(2) have "y \<notin> fst ` set acc"
        by (auto simp only: disjoint_iff set_simps image_insert insert_iff)
      moreover from that kx have "y \<noteq> k" by auto
      ultimately show ?thesis by simp
    qed
    then show ?thesis by (simp only: disjoint_iff) blast
  qed
  from Cons.IH [OF d this p] x step show ?case by simp
qed

lemma build_entry_distinct:
  assumes "distinct header" "''__proto__'' \<notin> set header"
  shows "build_entry header values
           = map (\<lambda>i. (header ! i, field_value values i)) [0..<length header]"
proof -
  let ?xs = "zip [0..<length header] header"
  have z: "map snd ?xs = header"
    by (simp add: map_snd_zip)
  have s: "snd ` set ?xs = set header"
    using z by (metis set_map)
  have d: "distinct (map snd ?xs)"
    using assms(1) by (simp only: z)
  have e: "snd ` set ?xs \<inter> fst ` set ([] :: csv_row) = {}"
    by simp
  have p: "''__proto__'' \<notin> snd ` set ?xs"
    using assms(2) by (simp only: s) simp
  have "build_entry header values
          = map (\<lambda>(index, key). (key, field_value values index)) ?xs"
    unfolding build_entry_def
    using fold_assign_primitive_fresh [OF d e p, of "field_value values"] by simp
  also have "\<dots> = map (\<lambda>i. (header ! i, field_value values i)) [0..<length header]"
    by (rule nth_equalityI) simp_all
  finally show ?thesis .
qed

text \<open>The values of a line in which every field gives a match.\<close>

lemma field_match_single: "field_match fld \<noteq> [] \<Longrightarrow> \<exists>m. field_match fld = [m]"
  by (cases fld) (auto split: if_splits)

lemma matched_tokens:
  assumes "list_all (\<lambda>fld. field_match fld \<noteq> []) flds"
  shows "concat (map field_match flds) = map (\<lambda>fld. hd (field_match fld)) flds"
  using assms
proof (induction flds)
  case Nil
  then show ?case by simp
next
  case (Cons fld flds)
  then obtain m where "field_match fld = [m]"
    using field_match_single [of fld] by auto
  with Cons show ?case by simp
qed

lemma tokens_values:
  assumes "list_all well_formed_field flds"
    and "list_all (\<lambda>fld. field_match fld \<noteq> []) flds"
  shows "field_value (concat (map field_match flds)) i
           = (if i < length flds then trim (field_content (flds ! i)) else [])"
proof (cases "i < length flds")
  case True
  have toks: "concat (map field_match flds) = map (\<lambda>fld. hd (field_match fld)) flds"
    using assms by (simp add: matched_tokens)
  have wf: "well_formed_field (flds ! i)" and m: "field_match (flds ! i) \<noteq> []"
    using assms True by (simp_all add: list_all_length)
  have "field_value (concat (map field_match flds)) i = trim (field_content (flds ! i))"
  proof (rule field_value_token [OF _ _ wf])
    show "i < length (concat (map field_match flds))"
      using True by (simp add: toks)
    show "concat (map field_match flds) ! i \<in> set (field_match (flds ! i))"
    proof -
      from field_match_single [OF m] obtain t where "field_match (flds ! i) = [t]" ..
      with True show ?thesis by (simp add: toks)
    qed
  qed
  with True show ?thesis by simp
next
  case False
  have "length (concat (map field_match flds)) = length flds"
    using assms by (simp add: matched_tokens)
  with False show ?thesis by (simp add: field_value_def)
qed

lemma field_match_present:
  "concat (map field_match (filter (\<lambda>fld. fld \<noteq> Unquoted []) flds)) = concat (map field_match flds)"
  by (induction flds) simp_all

lemma present_matched:
  "list_all (\<lambda>fld. field_match fld \<noteq> []) (filter (\<lambda>fld. fld \<noteq> Unquoted []) flds)"
proof -
  have "field_match fld \<noteq> []" if "fld \<noteq> Unquoted []" for fld
    using that by (cases fld) simp_all
  then show ?thesis by (simp add: list_all_iff)
qed

text \<open>
  The record of a line of well-formed fields: the empty unquoted fields are left out, the
  values of the other fields are paired with the header names from the left.
\<close>

lemma line_record:
  assumes "list_all well_formed_field flds"
    and "distinct header" "''__proto__'' \<notin> set header"
  shows "build_entry header (regex_match_all (line_of_fields flds))
           = record_of header (map (\<lambda>fld. trim (field_content fld))
                                   (filter (\<lambda>fld. fld \<noteq> Unquoted []) flds))"
proof -
  define present where "present = filter (\<lambda>fld. fld \<noteq> Unquoted []) flds"
  have wf: "list_all well_formed_field present"
    using assms(1) by (simp add: present_def list_all_iff)
  have m: "list_all (\<lambda>fld. field_match fld \<noteq> []) present"
    unfolding present_def by (rule present_matched)
  have toks: "regex_match_all (line_of_fields flds) = concat (map field_match present)"
    unfolding present_def by (simp add: regex_match_all_line [OF assms(1)] field_match_present)
  have "record_of header (map (\<lambda>fld. trim (field_content fld)) present)
          = map (\<lambda>i. (header ! i, field_value (concat (map field_match present)) i))
                [0..<length header]"
    by (simp add: record_of_def tokens_values [OF wf m])
  then show ?thesis
    unfolding present_def [symmetric] toks
    by (simp only: build_entry_distinct [OF assms(2,3)])
qed

text \<open>A text made of a header line and data lines.\<close>

lemma split_on_absent: "d \<notin> set s \<Longrightarrow> split_on d s = [s]"
  by (induction s) auto

lemma split_on_first: "d \<notin> set h \<Longrightarrow> split_on d (h @ d # rest) = h # split_on d rest"
  by (induction h) auto

lemma split_on_join:
  assumes "ls \<noteq> []" "\<forall>l \<in> set ls. d \<notin> set l"
  shows "split_on d (join [d] ls) = ls"
  using assms
proof (induction ls rule: induct_list012)
  case 1
  then show ?case by simp
next
  case (2 x)
  then show ?case by (simp add: split_on_absent)
next
  case (3 x y zs)
  then show ?case by (simp add: split_on_first)
qed

lemma filter_join:
  assumes "\<forall>l \<in> set ls. c \<notin> set l" "c \<noteq> d"
  shows "filter (\<lambda>x. x \<noteq> c) (join [d] ls) = join [d] ls"
  using assms
proof (induction ls rule: induct_list012)
  case 1
  then show ?case by simp
next
  case (2 x)
  then show ?case by (auto simp: filter_id_conv)
next
  case (3 x y zs)
  then have "filter (\<lambda>x. x \<noteq> c) x = x"
    by (auto simp: filter_id_conv)
  with 3 show ?case by simp
qed

lemma parseCSV_lines:
  assumes "list_all plain_line (h # ls)"
  shows "parseCSV (join [newline] (h # ls))
           = map (\<lambda>l. build_entry (map trim (split_on comma h)) (regex_match_all l)) ls"
proof -
  have nl: "\<forall>l \<in> set (h # ls). newline \<notin> set l"
    and cr: "\<forall>l \<in> set (h # ls). carriage_return \<notin> set l"
    and nb: "\<forall>l \<in> set (h # ls). trim l \<noteq> []"
    using assms by (simp_all add: list_all_iff plain_line_def)
  have "carriage_return \<noteq> newline"
    by (simp add: carriage_return_def newline_def)
  then have "filter (\<lambda>c. c \<noteq> carriage_return) (join [newline] (h # ls)) = join [newline] (h # ls)"
    using cr by (intro filter_join)
  moreover have "split_on newline (join [newline] (h # ls)) = h # ls"
    using nl by (intro split_on_join) simp_all
  moreover have "filter (\<lambda>line. trim line \<noteq> []) (h # ls) = h # ls"
    using nb by (simp only: filter_id_conv)
  ultimately have lines: "csv_lines (join [newline] (h # ls)) = h # ls"
    by (simp only: csv_lines_def)
  have "h \<noteq> []"
    using nb by (auto simp: trim_def)
  then have "join [newline] (h # ls) \<noteq> []"
    by (cases ls) simp_all
  then have "parseCSV (join [newline] (h # ls))
               = (let lines = h # ls in
                  if length lines < 2 then []
                  else let header = map trim (split_on comma (hd lines)) in
                       map (\<lambda>line. build_entry header (regex_match_all line)) (tl lines))"
    by (simp only: parseCSV_def lines if_False)
  also have "\<dots> = map (\<lambda>l. build_entry (map trim (split_on comma h)) (regex_match_all l)) ls"
    by (cases ls) (simp_all add: Let_def)
  finally show ?thesis .
qed

text \<open>
  C9. A data line of well-formed fields with one empty unquoted field, in a text of a header
  line and data lines: the field gives no match, so in the record of the line the values of
  the fields behind it are paired with the header names one column further left, and a column
  for which no value is left gets the empty string. An empty quoted field gives the match
  \<open>""\<close> and keeps its column, with the empty string as its value. The header names are
  distinct and none is \<open>__proto__\<close>; the other lines of the text give their own records.
\<close>

theorem empty_field_skipped:
  assumes "list_all well_formed_field pre" and "list_all well_formed_field post"
    and "well_formed_field (Quoted lead [])"
    and "Unquoted [] \<notin> set (pre @ post)"
    and "skipped = line_of_fields (pre @ [Unquoted []] @ post)"
    and "kept = line_of_fields (pre @ [Quoted lead []] @ post)"
    and "header = map trim (split_on comma h)"
    and "distinct header" and "''__proto__'' \<notin> set header"
    and "list_all plain_line (h # earlier @ [skipped, kept] @ later)"
  shows "regex_match_all skipped = regex_match_all (line_of_fields (pre @ post))
       \<and> regex_match_all kept
           = concat (map field_match pre) @ [[dquote, dquote]] @ concat (map field_match post)
       \<and> parseCSV (join [newline] (h # earlier @ [skipped] @ later))
           = map (\<lambda>l. build_entry header (regex_match_all l)) earlier
             @ [record_of header (map (\<lambda>fld. trim (field_content fld)) pre
                                  @ map (\<lambda>fld. trim (field_content fld)) post)]
             @ map (\<lambda>l. build_entry header (regex_match_all l)) later
       \<and> parseCSV (join [newline] (h # earlier @ [kept] @ later))
           = map (\<lambda>l. build_entry header (regex_match_all l)) earlier
             @ [record_of header (map (\<lambda>fld. trim (field_content fld)) pre
                                  @ [[]] @ map (\<lambda>fld. trim (field_content fld)) post)]
             @ map (\<lambda>l. build_entry header (regex_match_all l)) later
       \<and> parseCSV (''A,B,C'' @ [newline] @ ''a,,c'')
           = [[(''A'', ''a''), (''B'', ''c''), (''C'', [])]]
       \<and> parseCSV (''A,B,C'' @ [newline] @ ''a,'' @ [dquote, dquote] @ '',c'')
           = [[(''A'', ''a''), (''B'', []), (''C'', ''c'')]]"
proof -
  have wf1: "list_all well_formed_field (pre @ [Unquoted []] @ post)"
    and wf2: "list_all well_formed_field (pre @ post)"
    and wf3: "list_all well_formed_field (pre @ [Quoted lead []] @ post)"
    using assms(1-3) by simp_all
  have skip: "regex_match_all skipped = regex_match_all (line_of_fields (pre @ post))"
    unfolding assms(5)
    by (simp only: regex_match_all_line [OF wf1] regex_match_all_line [OF wf2]) simp
  have keep: "regex_match_all kept
           = concat (map field_match pre) @ [[dquote, dquote]] @ concat (map field_match post)"
    unfolding assms(6)
    by (simp only: regex_match_all_line [OF wf3]) simp
  have present: "filter (\<lambda>fld. fld \<noteq> Unquoted []) pre = pre"
    "filter (\<lambda>fld. fld \<noteq> Unquoted []) post = post"
    using assms(4) by (auto simp: filter_id_conv)
  have rec1: "build_entry header (regex_match_all skipped)
                = record_of header (map (\<lambda>fld. trim (field_content fld)) pre
                                     @ map (\<lambda>fld. trim (field_content fld)) post)"
    unfolding assms(5)
    using line_record [OF wf1 assms(8,9)] by (simp add: present)
  have rec2: "build_entry header (regex_match_all kept)
                = record_of header (map (\<lambda>fld. trim (field_content fld)) pre
                                     @ [[]] @ map (\<lambda>fld. trim (field_content fld)) post)"
    unfolding assms(6)
    using line_record [OF wf3 assms(8,9)] by (simp add: present trim_def)
  have "list_all plain_line (h # earlier @ [skipped] @ later)"
    and "list_all plain_line (h # earlier @ [kept] @ later)"
    using assms(10) by simp_all
  then have p1: "parseCSV (join [newline] (h # earlier @ [skipped] @ later))
           = map (\<lambda>l. build_entry header (regex_match_all l)) (earlier @ [skipped] @ later)"
    and p2: "parseCSV (join [newline] (h # earlier @ [kept] @ later))
           = map (\<lambda>l. build_entry header (regex_match_all l)) (earlier @ [kept] @ later)"
    unfolding assms(7) by (simp_all only: parseCSV_lines)
  have ex1: "parseCSV (''A,B,C'' @ [newline] @ ''a,,c'')
           = [[(''A'', ''a''), (''B'', ''c''), (''C'', [])]]"
    by code_simp
  have ex2: "parseCSV (''A,B,C'' @ [newline] @ ''a,'' @ [dquote, dquote] @ '',c'')
           = [[(''A'', ''a''), (''B'', []), (''C'', ''c'')]]"
    by code_simp
  have shifted: "parseCSV (join [newline] (h # earlier @ [skipped] @ later))
           = map (\<lambda>l. build_entry header (regex_match_all l)) earlier
             @ [record_of header (map (\<lambda>fld. trim (field_content fld)) pre
                                  @ map (\<lambda>fld. trim (field_content fld)) post)]
             @ map (\<lambda>l. build_entry header (regex_match_all l)) later"
    unfolding p1 by (simp add: rec1)
  have in_place: "parseCSV (join [newline] (h # earlier @ [kept] @ later))
           = map (\<lambda>l. build_entry header (regex_match_all l)) earlier
             @ [record_of header (map (\<lambda>fld. trim (field_content fld)) pre
                                  @ [[]] @ map (\<lambda>fld. trim (field_content fld)) post)]
             @ map (\<lambda>l. build_entry header (regex_match_all l)) later"
    unfolding p2 by (simp add: rec2)
  show ?thesis
    by (intro conjI skip keep shifted in_place ex1 ex2)
qed

theorem empty_field_skipped_witness:
  "list_all well_formed_field [Unquoted ''a''] \<and> list_all well_formed_field [Unquoted ''c'']
   \<and> well_formed_field (Quoted [] [])
   \<and> Unquoted [] \<notin> set ([Unquoted ''a''] @ [Unquoted ''c''])
   \<and> ''a,,c'' = line_of_fields ([Unquoted ''a''] @ [Unquoted []] @ [Unquoted ''c''])
   \<and> ''a,'' @ [dquote, dquote] @ '',c''
       = line_of_fields ([Unquoted ''a''] @ [Quoted [] []] @ [Unquoted ''c''])
   \<and> [''A'', ''B'', ''C''] = map trim (split_on comma ''A,B,C'')
   \<and> distinct [''A'', ''B'', ''C''] \<and> ''__proto__'' \<notin> set [''A'', ''B'', ''C'']
   \<and> list_all plain_line
       (''A,B,C'' # [''x,y,z''] @ [''a,,c'', ''a,'' @ [dquote, dquote] @ '',c''] @ [''p,q''])
   \<and> regex_match_all ''a,,c'' = [''a'', ''c'']
   \<and> regex_match_all (''a,'' @ [dquote, dquote] @ '',c'') = [''a'', [dquote, dquote], ''c'']
   \<and> parseCSV (''A,B,C'' @ [newline] @ ''x,y,z'' @ [newline] @ ''a,,c'' @ [newline] @ ''p,q'')
       = [[(''A'', ''x''), (''B'', ''y''), (''C'', ''z'')],
          [(''A'', ''a''), (''B'', ''c''), (''C'', [])],
          [(''A'', ''p''), (''B'', ''q''), (''C'', [])]]
   \<and> parseCSV (''A,B,C'' @ [newline] @ ''x,y,z'' @ [newline]
                 @ ''a,'' @ [dquote, dquote] @ '',c'' @ [newline] @ ''p,q'')
       = [[(''A'', ''x''), (''B'', ''y''), (''C'', ''z'')],
          [(''A'', ''a''), (''B'', []), (''C'', ''c'')],
          [(''A'', ''p''), (''B'', ''q''), (''C'', [])]]"
proof -
  have "regex_match_all ''a,c'' = [''a'', ''c'']"
    by code_simp
  moreover have "build_entry [''A'', ''B'', ''C''] (regex_match_all ''x,y,z'')
       = [(''A'', ''x''), (''B'', ''y''), (''C'', ''z'')]"
    by code_simp
  moreover have "build_entry [''A'', ''B'', ''C''] (regex_match_all ''p,q'')
       = [(''A'', ''p''), (''B'', ''q''), (''C'', [])]"
    by code_simp
  moreover have "record_of [''A'', ''B'', ''C''] [''a'', ''c'']
       = [(''A'', ''a''), (''B'', ''c''), (''C'', [])]"
    by code_simp
  moreover have "record_of [''A'', ''B'', ''C''] [''a'', [], ''c'']
       = [(''A'', ''a''), (''B'', []), (''C'', ''c'')]"
    by code_simp
  moreover have "map trim (split_on comma ''A,B,C'') = [''A'', ''B'', ''C'']"
    by code_simp
  moreover have "list_all plain_line
       [''A,B,C'', ''x,y,z'', ''a,,c'', ''a,'' @ [dquote, dquote] @ '',c'', ''p,q'']"
    by code_simp
  ultimately show ?thesis
    using empty_field_skipped [of "[Unquoted ''a'']" "[Unquoted ''c'']" "[]" "''a,,c''"
        "''a,'' @ [dquote, dquote] @ '',c''" "[''A'', ''B'', ''C'']" "''A,B,C''"
        "[''x,y,z'']" "[''p,q'']"]
    by (simp add: line_of_fields_def comma_def dquote_def trim_def is_space_def)
qed

section \<open>Properties of the upload validation\<close>

lemma required_not_inherited: "col \<in> set requiredColumns \<Longrightarrow> col \<notin> set proto_names"
  by (auto simp: requiredColumns_def proto_names_def proto_functions_def)

lemma missingColumns_own:
  "missingColumns firstRow = filter (\<lambda>col. col \<notin> fst ` set firstRow) requiredColumns"
  unfolding missingColumns_def js_in_def
  by (rule filter_cong) (auto dest: required_not_inherited)

text \<open>
  C7. When the first record of a non-empty record set lacks required columns, the upload check
  throws the error whose message lists exactly the required columns that are not keys of the
  first record, in the order of \<open>requiredColumns\<close>. The outcome depends on nothing but the set
  of keys of the first record: not on their order, not on the cell values, not on the other
  records. The check is a function of the records and returns no changed copy of them.
\<close>

theorem validate_missing_columns:
  assumes "parsedData \<noteq> []"
    and "\<exists>col \<in> set requiredColumns. col \<notin> fst ` set (hd parsedData)"
  shows "validate parsedData
           = Inl (Error (''CSV is missing columns: ''
                @ join '', '' (filter (\<lambda>col. col \<notin> fst ` set (hd parsedData)) requiredColumns)))
       \<and> (\<forall>other. other \<noteq> [] \<and> fst ` set (hd other) = fst ` set (hd parsedData)
                   \<longrightarrow> validate other = validate parsedData)"
proof -
  have same: "validate other = validate parsedData"
    if "other \<noteq> []" "fst ` set (hd other) = fst ` set (hd parsedData)" for other
    using that assms(1) by (simp add: validate_def missingColumns_own)
  have "filter (\<lambda>col. col \<notin> fst ` set (hd parsedData)) requiredColumns \<noteq> []"
    using assms(2) by (simp add: filter_empty_conv)
  then have "validate parsedData
           = Inl (Error (''CSV is missing columns: ''
                @ join '', '' (filter (\<lambda>col. col \<notin> fst ` set (hd parsedData)) requiredColumns)))"
    using assms(1) by (simp add: validate_def missingColumns_own Let_def)
  with same show ?thesis by blast
qed

theorem validate_missing_columns_witness:
  "[[(''Department'', ''Sales''), (''Ad Group Name'', ''g''), (''Lifecycle Stage'', ''Lead''),
     (''Ad Campaign Name'', ''c''), (''Company ICP Priority for Contacts'', ''High'')]] \<noteq> []
   \<and> (\<exists>col \<in> set requiredColumns. col \<notin> fst ` set (hd
        [[(''Department'', ''Sales''), (''Ad Group Name'', ''g''), (''Lifecycle Stage'', ''Lead''),
          (''Ad Campaign Name'', ''c''), (''Company ICP Priority for Contacts'', ''High'')]]))
   \<and> validate
        [[(''Department'', ''Sales''), (''Ad Group Name'', ''g''), (''Lifecycle Stage'', ''Lead''),
          (''Ad Campaign Name'', ''c''), (''Company ICP Priority for Contacts'', ''High'')]]
       = Inl (Error ''CSV is missing columns: Job Title'')"
  using validate_missing_columns
    [of "[[(''Department'', ''Sales''), (''Ad Group Name'', ''g''), (''Lifecycle Stage'', ''Lead''),
           (''Ad Campaign Name'', ''c''), (''Company ICP Priority for Contacts'', ''High'')]]"]
  by (simp add: requiredColumns_def)

section \<open>Properties of the view state\<close>

text \<open>
  C8. From the state with no expanded cell, a click on cell \<open>(p, k)\<close> expands it and a second
  click with the same arguments collapses it, which is the original state. The same holds when
  \<open>(p, k)\<close> itself was expanded; a different expanded cell is not restored.
\<close>

theorem toggle_twice:
  assumes "expandedCell st = None
           \<or> expandedCell st = Some \<lparr>cell_primaryValue = p, cell_drillDownKey = k\<rparr>"
  shows "handleCellClick p k (handleCellClick p k st) = st
       \<and> (expandedCell st = None \<longrightarrow>
            expandedCell (handleCellClick p k st)
              = Some \<lparr>cell_primaryValue = p, cell_drillDownKey = k\<rparr>)"
  using assms by (auto simp: handleCellClick_def)

theorem toggle_twice_witness:
  "expandedCell \<lparr>primaryDimension = AdGroupName, drillDown = Combined, expandedCell = None\<rparr> = None
   \<and> handleCellClick ''g'' ''High''
       \<lparr>primaryDimension = AdGroupName, drillDown = Combined, expandedCell = None\<rparr>
      = \<lparr>primaryDimension = AdGroupName, drillDown = Combined,
         expandedCell = Some \<lparr>cell_primaryValue = ''g'', cell_drillDownKey = ''High''\<rparr>\<rparr>
   \<and> handleCellClick ''g'' ''High'' (handleCellClick ''g'' ''High''
       \<lparr>primaryDimension = AdGroupName, drillDown = Combined, expandedCell = None\<rparr>)
      = \<lparr>primaryDimension = AdGroupName, drillDown = Combined, expandedCell = None\<rparr>"
  using toggle_twice
    [of "\<lparr>primaryDimension = AdGroupName, drillDown = Combined, expandedCell = None\<rparr>" "''g''" "''High''"]
  by (simp add: handleCellClick_def)

lemma toggle_twice_other_cell:
  assumes "expandedCell st = Some c"
    and "c \<noteq> \<lparr>cell_primaryValue = p, cell_drillDownKey = k\<rparr>"
  shows "expandedCell (handleCellClick p k (handleCellClick p k st)) = None"
  using assms by (cases c) (auto simp: handleCellClick_def)

section \<open>Properties of plain objects\<close>

lemma map_of_obj_set: "map_of (obj_set obj k v) = (map_of obj)(k \<mapsto> v)"
  by (induction obj) auto

lemma keys_obj_set:
  "map fst (obj_set obj k v)
     = (if k \<in> fst ` set obj then map fst obj else map fst obj @ [k])"
  by (induction obj) (auto simp: rev_image_eqI)

lemma set_obj_set: "set (obj_set obj k v) \<subseteq> insert (k, v) (set obj)"
  by (induction obj) (auto split: if_splits)

lemma sum_obj_set:
  fixes g :: "'v \<Rightarrow> nat"
  shows "sum_list (map (\<lambda>(k, v). g v) (obj_set obj k v))
           + (case map_of obj k of Some old \<Rightarrow> g old | None \<Rightarrow> 0)
         = sum_list (map (\<lambda>(k, v). g v) obj) + g v"
  by (induction obj) auto

lemma js_get_plain:
  "k \<notin> set proto_names \<Longrightarrow>
     js_get obj k = (case map_of obj k of Some v \<Rightarrow> Own v | None \<Rightarrow> Undefined)"
  by (auto simp: js_get_def proto_names_def split: option.splits)

lemma js_get_inherited:
  "k \<in> set proto_names \<Longrightarrow> map_of obj k = None \<Longrightarrow>
     js_get obj k = Inherited_proto \<or> js_get obj k = Inherited_function k"
  by (auto simp: js_get_def proto_names_def)

subsection \<open>First occurrences\<close>

lemma first_occurrences_Nil [simp]: "first_occurrences [] = []"
  by (simp add: first_occurrences_def)

lemma first_occurrences_snoc:
  "first_occurrences (xs @ [x])
     = (if x \<in> set xs then first_occurrences xs else first_occurrences xs @ [x])"
  by (simp add: first_occurrences_def)

lemma set_first_occurrences [simp]: "set (first_occurrences xs) = set xs"
  by (simp add: first_occurrences_def)

lemma distinct_first_occurrences [simp]: "distinct (first_occurrences xs)"
  by (simp add: first_occurrences_def)

lemma first_occurrences_Cons:
  "first_occurrences (x # xs) = x # filter (\<lambda>y. y \<noteq> x) (first_occurrences xs)"
proof -
  have "remdups (ys @ [x]) = filter (\<lambda>y. y \<noteq> x) (remdups ys) @ [x]" for ys
    by (induction ys) auto
  then show ?thesis
    by (simp add: first_occurrences_def rev_filter)
qed

lemma first_occurrences_distinct: "distinct xs \<Longrightarrow> first_occurrences xs = xs"
  by (simp add: first_occurrences_def distinct_remdups_id)

subsection \<open>Object.entries\<close>

lemma mset_object_entries: "mset (object_entries obj) = mset obj"
proof -
  have "mset (filter (\<lambda>(k, v). array_index k \<noteq> None) obj)
          + mset (filter (\<lambda>(k, v). array_index k = None) obj) = mset obj"
    by (induction obj) auto
  then show ?thesis by (simp add: object_entries_def)
qed

lemma set_object_entries [simp]: "set (object_entries obj) = set obj"
  using mset_object_entries [of obj] by (metis set_mset_mset)

lemma length_object_entries [simp]: "length (object_entries obj) = length obj"
  using mset_object_entries [of obj] by (metis size_mset)

lemma distinct_keys_object_entries:
  "distinct (map fst obj) \<Longrightarrow> distinct (map fst (object_entries obj))"
  using mset_object_entries [of obj]
  by (metis distinct_map distinct_count_atmost_1 set_object_entries mset_eq_setD
      mset_map mset_eq_imp_distinct_iff)

lemma map_fst_sort_key:
  "map fst (sort_key (\<lambda>(k, v). f k) xs) = sort_key f (map fst xs)"
proof (induction xs)
  case Nil
  then show ?case by simp
next
  case (Cons x xs)
  have ins: "map fst (insort_key (\<lambda>(k, v). f k) x ys) = insort_key f (fst x) (map fst ys)" for ys
    by (induction ys) (auto simp: case_prod_beta)
  from Cons show ?case by (simp add: ins)
qed

lemma keys_object_entries:
  "map fst (object_entries obj)
     = sort_key index_of_key (filter (\<lambda>k. array_index k \<noteq> None) (map fst obj))
       @ filter (\<lambda>k. array_index k = None) (map fst obj)"
proof -
  have a: "map fst (filter (\<lambda>(k, v). P k) obj) = filter P (map fst obj)" for P
    by (induction obj) auto
  show ?thesis
    by (simp add: object_entries_def map_fst_sort_key a)
qed

section \<open>Lemmas on the aggregation\<close>

subsection \<open>Grouping\<close>

lemma group_rows_append:
  "group_rows keyOf acc (xs @ ys)
     = (case group_rows keyOf acc xs of Inl e \<Rightarrow> Inl e | Inr g \<Rightarrow> group_rows keyOf g ys)"
  by (induction xs arbitrary: acc) (auto split: sum.splits)

lemma push_to_group_plain:
  "k \<notin> set proto_names \<Longrightarrow>
     push_to_group acc k row
       = Inr (obj_set acc k ((case map_of acc k of Some rows \<Rightarrow> rows | None \<Rightarrow> []) @ [row]))"
  by (simp add: push_to_group_def js_get_plain split: option.splits)

lemma push_to_group_inherited:
  "k \<in> set proto_names \<Longrightarrow> map_of acc k = None \<Longrightarrow> push_to_group acc k row = Inl TypeError"
  using js_get_inherited [of k acc] by (auto simp: push_to_group_def)

lemma truthy_keys_snoc:
  "truthy_keys (ks @ [k]) = (if truthy k then truthy_keys ks @ [the k] else truthy_keys ks)"
  by (simp add: truthy_keys_def)

lemma truthy_keys_Cons:
  "truthy_keys (k # ks) = (if truthy k then the k # truthy_keys ks else truthy_keys ks)"
  by (simp add: truthy_keys_def)

lemma truthy_keys_Nil [simp]: "truthy_keys [] = []"
  by (simp add: truthy_keys_def)

lemma in_truthy_keys:
  "k \<in> set (truthy_keys (map keyOf rows)) \<longleftrightarrow> k \<noteq> [] \<and> (\<exists>r \<in> set rows. keyOf r = Some k)"
  by (induction rows) (auto simp: truthy_keys_Cons truthy_def split: option.splits)

lemma length_truthy_keys:
  "length (truthy_keys (map keyOf rows)) = length (filter (\<lambda>r. truthy (keyOf r)) rows)"
  by (induction rows) (auto simp: truthy_keys_Cons)

lemma group_rows_plain:
  assumes "\<forall>k \<in> set (truthy_keys (map keyOf rows)). k \<notin> set proto_names"
  shows "\<exists>g. group_rows keyOf [] rows = Inr g
           \<and> map fst g = first_occurrences (truthy_keys (map keyOf rows))
           \<and> (\<forall>k. map_of g k
                  = (if k \<in> set (truthy_keys (map keyOf rows))
                     then Some (filter (\<lambda>r. keyOf r = Some k) rows) else None))"
  using assms
proof (induction rows rule: rev_induct)
  case Nil
  then show ?case by simp
next
  case (snoc r rows)
  let ?ks = "truthy_keys (map keyOf rows)"
  have "\<forall>k \<in> set ?ks. k \<notin> set proto_names"
    using snoc.prems by (simp add: truthy_keys_snoc split: if_splits)
  with snoc.IH obtain g where g: "group_rows keyOf [] rows = Inr g"
    and keys: "map fst g = first_occurrences ?ks"
    and grp: "\<And>k. map_of g k = (if k \<in> set ?ks then Some (filter (\<lambda>r. keyOf r = Some k) rows) else None)"
    by blast
  show ?case
  proof (cases "truthy (keyOf r)")
    case False
    then have "\<And>k. k \<in> set ?ks \<Longrightarrow> keyOf r \<noteq> Some k"
      by (auto simp: in_truthy_keys truthy_def)
    with False g keys grp show ?thesis
      by (simp add: group_rows_append truthy_keys_snoc)
  next
    case True
    then obtain k where k: "keyOf r = Some k" "k \<noteq> []"
      by (auto simp: truthy_def split: option.splits)
    have plain: "k \<notin> set proto_names"
      using snoc.prems True k by (simp add: truthy_keys_snoc)
    define g' where "g' = obj_set g k ((case map_of g k of Some rows \<Rightarrow> rows | None \<Rightarrow> []) @ [r])"
    have res: "group_rows keyOf [] (rows @ [r]) = Inr g'"
      using True k g by (simp add: group_rows_append push_to_group_plain [OF plain] g'_def)
    have "fst ` set g = set ?ks"
      using keys by (metis set_first_occurrences set_map)
    then have keys': "map fst g' = first_occurrences (truthy_keys (map keyOf (rows @ [r])))"
      using True k keys by (simp add: g'_def keys_obj_set truthy_keys_snoc first_occurrences_snoc)
    have "map_of g' k' = (if k' \<in> set (truthy_keys (map keyOf (rows @ [r])))
                     then Some (filter (\<lambda>r. keyOf r = Some k') (rows @ [r])) else None)" for k'
      using True k grp
      by (auto simp: g'_def map_of_obj_set truthy_keys_snoc in_truthy_keys filter_empty_conv)
    with res keys' show ?thesis by blast
  qed
qed

lemma group_rows_nonempty:
  "group_rows keyOf acc rows = Inr g \<Longrightarrow> \<forall>(k, v) \<in> set acc. v \<noteq> [] \<Longrightarrow> \<forall>(k, v) \<in> set g. v \<noteq> []"
proof (induction rows arbitrary: acc)
  case Nil
  then show ?case by simp
next
  case (Cons r rows)
  show ?case
  proof (cases "truthy (keyOf r)")
    case False
    with Cons show ?thesis by simp
  next
    case True
    with Cons.prems(1) obtain acc' where acc': "push_to_group acc (the (keyOf r)) r = Inr acc'"
      and rest: "group_rows keyOf acc' rows = Inr g"
      by (auto split: sum.splits)
    from acc' have "\<exists>v. acc' = obj_set acc (the (keyOf r)) (v @ [r])"
      by (auto simp: push_to_group_def split: lookup.splits intro: exI [of _ "[]"])
    then obtain v where "acc' = obj_set acc (the (keyOf r)) (v @ [r])" ..
    then have "\<forall>(k, v) \<in> set acc'. v \<noteq> []"
      using Cons.prems(2) set_obj_set [of acc "the (keyOf r)" "v @ [r]"] by auto
    with Cons.IH rest show ?thesis by blast
  qed
qed

subsection \<open>Counting\<close>

lemma increment_plain:
  "k \<notin> set proto_names \<Longrightarrow>
     increment acc k
       = obj_set acc k (case map_of acc k of
                          Some (Num n) \<Rightarrow> Num (n + 1)
                        | Some (Function_text f n) \<Rightarrow> Function_text f (n + 1)
                        | None \<Rightarrow> Num 1)"
  by (simp add: increment_def js_get_plain split: option.splits count_value.splits)

lemma positive_counts_iff:
  "positive_counts c \<longleftrightarrow> (\<forall>(k, v) \<in> set c. k \<noteq> [] \<and> (\<exists>n. v = Num n \<and> 1 \<le> n))"
proof -
  have "is_number v \<and> 1 \<le> count_number v \<longleftrightarrow> (\<exists>n. v = Num n \<and> 1 \<le> n)" for v
    by (cases v) auto
  then show ?thesis
    by (simp add: positive_counts_def list_all_iff case_prod_beta)
qed

lemma positive_counts_Nil [simp]: "positive_counts []"
  by (simp add: positive_counts_def)

lemma positive_counts_increment:
  assumes "positive_counts acc" "k \<noteq> []" "k \<notin> set proto_names"
  shows "positive_counts (increment acc k)"
proof -
  have "\<exists>n. (case map_of acc k of
                Some (Num n) \<Rightarrow> Num (n + 1)
              | Some (Function_text f n) \<Rightarrow> Function_text f (n + 1)
              | None \<Rightarrow> Num 1) = Num n \<and> 1 \<le> n"
  proof (cases "map_of acc k")
    case None
    then show ?thesis by simp
  next
    case (Some v)
    then have "(k, v) \<in> set acc" by (rule map_of_SomeD)
    with assms(1) obtain n where "v = Num n" by (auto simp: positive_counts_iff)
    with Some show ?thesis by simp
  qed
  then obtain n where n: "increment acc k = obj_set acc k (Num n)" "1 \<le> n"
    unfolding increment_plain [OF assms(3)] by auto
  show ?thesis
    unfolding positive_counts_iff
  proof (intro ballI)
    fix e assume "e \<in> set (increment acc k)"
    then have "e = (k, Num n) \<or> e \<in> set acc"
      using set_obj_set [of acc k "Num n"] n(1) by auto
    then show "case e of (k, v) \<Rightarrow> k \<noteq> [] \<and> (\<exists>n. v = Num n \<and> 1 \<le> n)"
      using assms(1,2) n(2) unfolding positive_counts_iff by auto
  qed
qed

lemma sum_increment:
  assumes "positive_counts acc" "k \<notin> set proto_names"
  shows "sum_list (map (\<lambda>(k, v). count_number v) (increment acc k))
           = sum_list (map (\<lambda>(k, v). count_number v) acc) + 1"
proof (cases "map_of acc k")
  case None
  with sum_obj_set [of count_number acc k "Num 1"] show ?thesis
    by (simp add: increment_plain [OF assms(2)])
next
  case (Some v)
  then have "(k, v) \<in> set acc" by (rule map_of_SomeD)
  with assms(1) obtain n where "v = Num n" by (auto simp: positive_counts_iff)
  with Some sum_obj_set [of count_number acc k "Num (n + 1)"] show ?thesis
    by (simp add: increment_plain [OF assms(2)])
qed

lemma count_fold_plain:
  assumes "\<forall>k \<in> set (truthy_keys (map keyOf xs)). k \<notin> set proto_names"
    and "positive_counts acc"
  shows "positive_counts
           (fold (\<lambda>contact acc. if truthy (keyOf contact)
                                then increment acc (the (keyOf contact)) else acc) xs acc)
       \<and> sum_list (map (\<lambda>(k, v). count_number v)
           (fold (\<lambda>contact acc. if truthy (keyOf contact)
                                then increment acc (the (keyOf contact)) else acc) xs acc))
         = sum_list (map (\<lambda>(k, v). count_number v) acc)
           + length (filter (\<lambda>r. truthy (keyOf r)) xs)"
  using assms
proof (induction xs arbitrary: acc)
  case Nil
  then show ?case by simp
next
  case (Cons x xs)
  show ?case
  proof (cases "truthy (keyOf x)")
    case False
    with Cons show ?thesis by (simp add: truthy_keys_Cons)
  next
    case True
    then have k: "the (keyOf x) \<noteq> []" "the (keyOf x) \<notin> set proto_names"
      using Cons.prems(1) by (auto simp: truthy_keys_Cons truthy_def split: option.splits)
    have rest: "\<forall>k \<in> set (truthy_keys (map keyOf xs)). k \<notin> set proto_names"
      using Cons.prems(1) True by (simp add: truthy_keys_Cons)
    have pos: "positive_counts (increment acc (the (keyOf x)))"
      using Cons.prems(2) k by (rule positive_counts_increment)
    from Cons.IH [OF rest pos] True sum_increment [OF Cons.prems(2) k(2)]
    show ?thesis by simp
  qed
qed

lemma sum_counts_positive:
  "positive_counts c \<Longrightarrow> sum_counts c = Some (sum_list (map (\<lambda>(k, v). count_number v) c))"
  by (auto simp: sum_counts_def positive_counts_def list_all_iff)

lemma count_by_plain:
  assumes "\<forall>k \<in> set (truthy_keys (map keyOf xs)). k \<notin> set proto_names"
  shows "positive_counts (count_by keyOf xs)"
    and "sum_counts (count_by keyOf xs) = Some (length (filter (\<lambda>r. truthy (keyOf r)) xs))"
  using count_fold_plain [OF assms positive_counts_Nil]
  by (simp_all add: count_by_def sum_counts_positive)

lemma map_of_count_by:
  assumes "\<forall>k \<in> set (truthy_keys (map keyOf xs)). k \<notin> set proto_names"
  shows "map_of (count_by keyOf xs) k
           = (if k \<in> set (truthy_keys (map keyOf xs))
              then Some (Num (length (filter (\<lambda>r. keyOf r = Some k) xs))) else None)"
  using assms
proof (induction xs rule: rev_induct)
  case Nil
  then show ?case by (simp add: count_by_def)
next
  case (snoc x xs)
  have rest: "\<forall>k \<in> set (truthy_keys (map keyOf xs)). k \<notin> set proto_names"
    using snoc.prems by (simp add: truthy_keys_snoc split: if_splits)
  note IH = snoc.IH [OF rest]
  show ?case
  proof (cases "truthy (keyOf x)")
    case False
    then have "keyOf x \<noteq> Some k" if "k \<in> set (truthy_keys (map keyOf xs))"
      using that by (auto simp: in_truthy_keys truthy_def)
    with False IH show ?thesis
      by (simp add: count_by_def truthy_keys_snoc)
  next
    case True
    then obtain k' where k': "keyOf x = Some k'" "k' \<noteq> []"
      by (auto simp: truthy_def split: option.splits)
    have plain: "k' \<notin> set proto_names"
      using snoc.prems True k' by (simp add: truthy_keys_snoc)
    have step: "count_by keyOf (xs @ [x]) = increment (count_by keyOf xs) k'"
      using True k' by (simp add: count_by_def)
    show ?thesis
    proof (cases "k = k'")
      case False
      with IH True k' show ?thesis
        by (simp add: step increment_plain [OF plain] map_of_obj_set truthy_keys_snoc)
    next
      case same: True
      show ?thesis
      proof (cases "k' \<in> set (truthy_keys (map keyOf xs))")
        case True
        with IH same have "map_of (count_by keyOf xs) k'
              = Some (Num (length (filter (\<lambda>r. keyOf r = Some k') xs)))"
          by simp
        with same k' \<open>truthy (keyOf x)\<close> show ?thesis
          by (simp add: step increment_plain [OF plain] map_of_obj_set truthy_keys_snoc)
      next
        case False
        with IH same have none: "map_of (count_by keyOf xs) k' = None"
          by simp
        from False k' have "filter (\<lambda>r. keyOf r = Some k') xs = []"
          by (auto simp: in_truthy_keys filter_empty_conv)
        with none same k' \<open>truthy (keyOf x)\<close> show ?thesis
          by (simp add: step increment_plain [OF plain] map_of_obj_set truthy_keys_snoc)
      qed
    qed
  qed
qed

subsection \<open>Building the rows\<close>

lemma map_throwing_Inr:
  "map_throwing f xs = Inr ys \<longleftrightarrow> list_all2 (\<lambda>x y. f x = Inr y) xs ys"
proof (induction xs arbitrary: ys)
  case Nil
  then show ?case by auto
next
  case (Cons x xs)
  show ?case
  proof (cases ys)
    case Nil
    then show ?thesis by (auto split: sum.splits)
  next
    case (Cons y ys')
    then show ?thesis
      using Cons.IH [of ys'] by (auto split: sum.splits)
  qed
qed

lemma map_throwing_total:
  assumes "\<forall>x \<in> set xs. \<exists>y. f x = Inr y"
  shows "\<exists>ys. map_throwing f xs = Inr ys"
  using assms by (induction xs) (auto split: sum.splits)

lemma group_rows_sizes:
  "group_rows keyOf acc rows = Inr g \<Longrightarrow>
     sum_list (map (\<lambda>(k, v). length v) g)
       = sum_list (map (\<lambda>(k, v). length v) acc) + length (filter (\<lambda>r. truthy (keyOf r)) rows)"
proof (induction rows arbitrary: acc)
  case Nil
  then show ?case by simp
next
  case (Cons r rows)
  show ?case
  proof (cases "truthy (keyOf r)")
    case False
    with Cons show ?thesis by simp
  next
    case True
    with Cons.prems obtain acc' where acc': "push_to_group acc (the (keyOf r)) r = Inr acc'"
      and rest: "group_rows keyOf acc' rows = Inr g"
      by (auto split: sum.splits)
    have "sum_list (map (\<lambda>(k, v). length v) acc') = sum_list (map (\<lambda>(k, v). length v) acc) + 1"
    proof (cases "map_of acc (the (keyOf r))")
      case None
      with acc' have "acc' = obj_set acc (the (keyOf r)) [r]"
        by (auto simp: push_to_group_def js_get_def split: if_splits)
      with None sum_obj_set [of length acc "the (keyOf r)" "[r]"] show ?thesis by simp
    next
      case (Some old)
      with acc' have "acc' = obj_set acc (the (keyOf r)) (old @ [r])"
        by (auto simp: push_to_group_def js_get_def)
      with Some sum_obj_set [of length acc "the (keyOf r)" "old @ [r]"] show ?thesis by simp
    qed
    with Cons.IH [OF rest] True show ?thesis by simp
  qed
qed

lemma fold_assign_object_fresh:
  assumes "distinct (map fst xs)" and "fst ` set xs \<inter> fst ` set acc = {}"
    and "''__proto__'' \<notin> fst ` set xs"
  shows "fold (\<lambda>(k, v) acc. assign_object acc k (f v)) xs acc = acc @ map (\<lambda>(k, v). (k, f v)) xs"
  using assms
proof (induction xs arbitrary: acc)
  case Nil
  then show ?case by simp
next
  case (Cons x xs)
  obtain k v where x: "x = (k, v)" by (cases x)
  have fresh: "k \<notin> fst ` set acc" and np: "k \<noteq> ''__proto__''"
    using Cons.prems x by auto
  have step: "assign_object acc k (f v) = acc @ [(k, f v)]"
    using fresh np by (simp add: assign_object_def obj_set_fresh)
  have "fst ` set xs \<inter> fst ` set (acc @ [(k, f v)]) = {}"
    using Cons.prems x by (auto simp: image_iff)
  with Cons.IH [of "acc @ [(k, f v)]"] Cons.prems x step show ?case by simp
qed

lemma plain_cells_iff:
  "plain_cells rawData \<longleftrightarrow>
     (\<forall>row \<in> set rawData. \<forall>name \<in> set requiredColumns. \<forall>v.
         column row name = Some v \<longrightarrow> v \<notin> set proto_names)"
  by (auto simp: plain_cells_def list_all_iff split: option.splits)

lemma plain_cells_subset: "plain_cells rows \<Longrightarrow> set rows' \<subseteq> set rows \<Longrightarrow> plain_cells rows'"
  by (auto simp: plain_cells_iff)

lemma plain_cells_keys:
  assumes "plain_cells rows" "name \<in> set requiredColumns"
  shows "\<forall>k \<in> set (truthy_keys (map (\<lambda>r. column r name) rows)). k \<notin> set proto_names"
  using assms by (auto simp: plain_cells_iff in_truthy_keys)

lemma getDrillDownKey_cases:
  "dd \<noteq> DrillNone \<Longrightarrow> dd \<noteq> Combined \<Longrightarrow>
     \<exists>name \<in> set requiredColumns. getDrillDownKey dd = (\<lambda>r. column r name)"
  by (cases dd) (auto simp: requiredColumns_def)

lemma plain_cells_drill_keys:
  assumes "plain_cells rows"
  shows "\<forall>k \<in> set (truthy_keys (map (getDrillDownKey dd) rows)). k \<notin> set proto_names"
proof (cases "dd = DrillNone \<or> dd = Combined")
  case True
  then have "getDrillDownKey dd = (\<lambda>r. None)" by (auto simp: fun_eq_iff)
  then show ?thesis by (auto simp: in_truthy_keys)
next
  case False
  then obtain name where "name \<in> set requiredColumns" "getDrillDownKey dd = (\<lambda>r. column r name)"
    using getDrillDownKey_cases [of dd] by auto
  with plain_cells_keys [OF assms] show ?thesis by simp
qed

lemma icp_lifecycle_required:
  "icp_column \<in> set requiredColumns" "lifecycle_column \<in> set requiredColumns"
  by (simp_all add: icp_column_def lifecycle_column_def requiredColumns_def)

lemma build_row_single:
  assumes "dd \<noteq> DrillNone" "dd \<noteq> Combined"
  shows "build_row dd (pv, contacts)
           = Inr \<lparr>primaryValue = pv, total = length contacts,
                  breakdown = Flat (count_by (getDrillDownKey dd) contacts)\<rparr>"
  using assms by (simp add: build_row_def)

lemma build_row_none:
  "build_row DrillNone (pv, contacts)
     = Inr \<lparr>primaryValue = pv, total = length contacts, breakdown = Flat []\<rparr>"
  by (simp add: build_row_def)

lemma nested_breakdown_plain:
  assumes "distinct (map fst icpGroups)" "''__proto__'' \<notin> fst ` set icpGroups"
  shows "nested_breakdown icpGroups
           = map (\<lambda>(icpKey, icpContacts).
                    (icpKey, \<lparr>count = length icpContacts,
                              lifecycleDistribution =
                                count_by (\<lambda>contact. column contact lifecycle_column) icpContacts\<rparr>))
                 (object_entries icpGroups)"
proof -
  have "distinct (map fst (object_entries icpGroups))"
    using assms(1) by (rule distinct_keys_object_entries)
  moreover have "''__proto__'' \<notin> fst ` set (object_entries icpGroups)"
    using assms(2) by simp
  ultimately show ?thesis
    unfolding nested_breakdown_def
    by (subst fold_assign_object_fresh) simp_all
qed

lemma build_row_combined:
  assumes "plain_cells contacts"
  shows "\<exists>icpGroups.
           group_rows (\<lambda>contact. column contact icp_column) [] contacts = Inr icpGroups
         \<and> build_row Combined (pv, contacts)
             = Inr \<lparr>primaryValue = pv, total = length contacts,
                    breakdown = Nested
                      (map (\<lambda>(icpKey, icpContacts).
                              (icpKey, \<lparr>count = length icpContacts,
                                        lifecycleDistribution =
                                          count_by (\<lambda>contact. column contact lifecycle_column)
                                            icpContacts\<rparr>))
                           (object_entries icpGroups))\<rparr>"
proof -
  let ?keys = "truthy_keys (map (\<lambda>contact. column contact icp_column) contacts)"
  have plain: "\<forall>k \<in> set ?keys. k \<notin> set proto_names"
    using assms icp_lifecycle_required(1) by (rule plain_cells_keys)
  from group_rows_plain [OF plain] obtain g
    where g: "group_rows (\<lambda>contact. column contact icp_column) [] contacts = Inr g"
      and keys: "map fst g = first_occurrences ?keys"
    by blast
  have d: "distinct (map fst g)"
    by (simp add: keys)
  have "fst ` set g = set ?keys"
    using keys by (metis set_first_occurrences set_map)
  then have np: "''__proto__'' \<notin> fst ` set g"
    using plain by (auto simp: proto_names_def)
  show ?thesis
    using g nested_breakdown_plain [OF d np] by (simp add: build_row_def)
qed

lemma build_row_total:
  assumes "plain_cells contacts"
  shows "\<exists>row. build_row dd (pv, contacts) = Inr row
               \<and> primaryValue row = pv \<and> total row = length contacts"
proof (cases "dd = Combined")
  case True
  with build_row_combined [OF assms, of pv] show ?thesis by auto
next
  case False
  then show ?thesis
    by (cases "dd = DrillNone") (simp_all add: build_row_none build_row_single)
qed

lemma group_rows_entries:
  assumes "\<forall>k \<in> set (truthy_keys (map keyOf rows)). k \<notin> set proto_names"
  shows "\<exists>g. group_rows keyOf [] rows = Inr g
           \<and> map fst g = first_occurrences (truthy_keys (map keyOf rows))
           \<and> (\<forall>(k, v) \<in> set g. k \<in> set (truthy_keys (map keyOf rows))
                                  \<and> v = filter (\<lambda>r. keyOf r = Some k) rows)"
proof -
  from group_rows_plain [OF assms] obtain g
    where g: "group_rows keyOf [] rows = Inr g"
      and keys: "map fst g = first_occurrences (truthy_keys (map keyOf rows))"
      and grp: "\<And>k. map_of g k
                  = (if k \<in> set (truthy_keys (map keyOf rows))
                     then Some (filter (\<lambda>r. keyOf r = Some k) rows) else None)"
    by blast
  have d: "distinct (map fst g)"
    by (simp add: keys)
  have "k \<in> set (truthy_keys (map keyOf rows)) \<and> v = filter (\<lambda>r. keyOf r = Some k) rows"
    if "(k, v) \<in> set g" for k v
  proof -
    from that d have "map_of g k = Some v" by simp
    with grp [of k] show ?thesis by (auto split: if_splits)
  qed
  with g keys show ?thesis by blast
qed

text \<open>The groups behind the rows, when no cell is the name of an inherited property.\<close>

lemma aggregate_plain:
  assumes "plain_cells rawData"
  shows "\<exists>groupedData rows.
           group_rows (\<lambda>row. column row (dimension_column dim)) [] rawData = Inr groupedData
         \<and> aggregate rawData dim dd
             = Inr (if rawData = [] then []
                    else dimension_column dim # ''Total Contacts'' # dynamicHeaders rawData dd,
                    rows)
         \<and> list_all2 (\<lambda>entry row. build_row dd entry = Inr row) (object_entries groupedData) rows"
proof -
  have req: "dimension_column dim \<in> set requiredColumns"
    by (cases dim) (simp_all add: requiredColumns_def)
  let ?keys = "truthy_keys (map (\<lambda>row. column row (dimension_column dim)) rawData)"
  have plain: "\<forall>k \<in> set ?keys. k \<notin> set proto_names"
    using assms req by (rule plain_cells_keys)
  from group_rows_entries [OF plain] obtain g
    where g: "group_rows (\<lambda>row. column row (dimension_column dim)) [] rawData = Inr g"
      and grp: "\<forall>(k, v) \<in> set g.
                  v = filter (\<lambda>r. column r (dimension_column dim) = Some k) rawData"
    by fastforce
  have "\<exists>row. build_row dd entry = Inr row" if "entry \<in> set (object_entries g)" for entry
  proof -
    obtain pv contacts where entry: "entry = (pv, contacts)" by (cases entry)
    with that grp have "set contacts \<subseteq> set rawData" by auto
    with assms have "plain_cells contacts" by (rule plain_cells_subset)
    from build_row_total [OF this, of dd pv] entry show ?thesis by auto
  qed
  then obtain rows where rows: "map_throwing (build_row dd) (object_entries g) = Inr rows"
    using map_throwing_total [of "object_entries g" "build_row dd"] by blast
  then have l2: "list_all2 (\<lambda>entry row. build_row dd entry = Inr row) (object_entries g) rows"
    by (simp add: map_throwing_Inr)
  show ?thesis
  proof (cases "rawData = []")
    case True
    with g rows have "g = []" "rows = []" by (auto simp: object_entries_def)
    with True g show ?thesis by (simp add: aggregate_def object_entries_def)
  next
    case False
    with g rows l2 show ?thesis by (auto simp: aggregate_def)
  qed
qed

subsection \<open>The rows of aggregate\<close>

lemma build_row_fields:
  "build_row dd (pv, contacts) = Inr row \<Longrightarrow> primaryValue row = pv \<and> total row = length contacts"
  by (auto simp: build_row_def split: if_splits sum.splits)

lemma list_all2_right:
  "list_all2 P xs ys \<Longrightarrow> y \<in> set ys \<Longrightarrow> \<exists>x \<in> set xs. P x y"
  by (metis in_set_conv_nth list_all2_conv_all_nth)

lemma list_all2_maps:
  "list_all2 (\<lambda>x y. f x = g y) xs ys \<Longrightarrow> map f xs = map g ys"
  by (induction rule: list_all2_induct) auto

lemma aggregate_Inr:
  assumes "aggregate rawData dim dd = Inr (headers, rows)"
  shows "\<exists>groupedData.
           group_rows (\<lambda>row. column row (dimension_column dim)) [] rawData = Inr groupedData
         \<and> list_all2 (\<lambda>entry row. build_row dd entry = Inr row) (object_entries groupedData) rows
         \<and> headers = (if rawData = [] then []
                       else dimension_column dim # ''Total Contacts'' # dynamicHeaders rawData dd)"
proof (cases "rawData = []")
  case True
  with assms show ?thesis by (simp add: aggregate_def object_entries_def)
next
  case False
  with assms show ?thesis
    by (auto simp: aggregate_def map_throwing_Inr split: sum.splits)
qed

lemma aggregate_positive_totals:
  assumes "aggregate rawData dim dd = Inr (headers, rows)" "row \<in> set rows"
  shows "0 < total row"
proof -
  from aggregate_Inr [OF assms(1)] obtain g
    where g: "group_rows (\<lambda>row. column row (dimension_column dim)) [] rawData = Inr g"
      and l2: "list_all2 (\<lambda>entry row. build_row dd entry = Inr row) (object_entries g) rows"
    by blast
  from list_all2_right [OF l2 assms(2)] obtain pv contacts
    where e: "(pv, contacts) \<in> set g" "build_row dd (pv, contacts) = Inr row"
    by auto
  have "contacts \<noteq> []"
    using group_rows_nonempty [OF g] e(1) by auto
  with build_row_fields [OF e(2)] show ?thesis by simp
qed

lemma aggregate_row_plain:
  assumes "plain_cells rawData" "aggregate rawData dim dd = Inr (headers, rows)" "row \<in> set rows"
  shows "build_row dd (primaryValue row, group_records rawData dim (primaryValue row)) = Inr row
       \<and> primaryValue row \<in> set (truthy_keys (map (\<lambda>r. column r (dimension_column dim)) rawData))
       \<and> plain_cells (group_records rawData dim (primaryValue row))"
proof -
  have req: "dimension_column dim \<in> set requiredColumns"
    by (cases dim) (simp_all add: requiredColumns_def)
  let ?keys = "truthy_keys (map (\<lambda>row. column row (dimension_column dim)) rawData)"
  have plain: "\<forall>k \<in> set ?keys. k \<notin> set proto_names"
    using assms(1) req by (rule plain_cells_keys)
  from group_rows_entries [OF plain] obtain g
    where g: "group_rows (\<lambda>row. column row (dimension_column dim)) [] rawData = Inr g"
      and grp: "\<forall>(k, v) \<in> set g. k \<in> set ?keys
                  \<and> v = filter (\<lambda>r. column r (dimension_column dim) = Some k) rawData"
    by blast
  from aggregate_Inr [OF assms(2)] g
  have l2: "list_all2 (\<lambda>entry row. build_row dd entry = Inr row) (object_entries g) rows"
    by auto
  from list_all2_right [OF l2 assms(3)] obtain pv contacts
    where e: "(pv, contacts) \<in> set g" "build_row dd (pv, contacts) = Inr row"
    by auto
  from build_row_fields [OF e(2)] have pv: "primaryValue row = pv" by simp
  from grp e(1) have c: "pv \<in> set ?keys" "contacts = group_records rawData dim pv"
    by (auto simp: group_records_def)
  have "plain_cells (group_records rawData dim pv)"
    using assms(1) by (rule plain_cells_subset) (auto simp: group_records_def)
  with e(2) pv c show ?thesis by simp
qed

lemma aggregate_keys_plain:
  assumes "plain_cells rawData" "aggregate rawData dim dd = Inr (headers, rows)"
  shows "map primaryValue rows
           = (let firsts = first_occurrences
                    (truthy_keys (map (\<lambda>r. column r (dimension_column dim)) rawData))
              in sort_key index_of_key (filter (\<lambda>k. array_index k \<noteq> None) firsts)
                 @ filter (\<lambda>k. array_index k = None) firsts)"
proof -
  have req: "dimension_column dim \<in> set requiredColumns"
    by (cases dim) (simp_all add: requiredColumns_def)
  let ?keys = "truthy_keys (map (\<lambda>row. column row (dimension_column dim)) rawData)"
  have plain: "\<forall>k \<in> set ?keys. k \<notin> set proto_names"
    using assms(1) req by (rule plain_cells_keys)
  from group_rows_entries [OF plain] obtain g
    where g: "group_rows (\<lambda>row. column row (dimension_column dim)) [] rawData = Inr g"
      and keys: "map fst g = first_occurrences ?keys"
    by blast
  from aggregate_Inr [OF assms(2)] g
  have l2: "list_all2 (\<lambda>entry row. build_row dd entry = Inr row) (object_entries g) rows"
    by auto
  have "list_all2 (\<lambda>entry row. fst entry = primaryValue row) (object_entries g) rows"
    using l2 by (rule list_all2_mono) (auto dest: build_row_fields)
  then have "map primaryValue rows = map fst (object_entries g)"
    by (simp add: list_all2_maps)
  then show ?thesis
    by (simp add: keys_object_entries keys Let_def)
qed

subsection \<open>The breakdown of a row\<close>

lemma sum_list_object_entries:
  fixes f :: "string \<times> 'v \<Rightarrow> nat"
  shows "sum_list (map f (object_entries obj)) = sum_list (map f obj)"
proof -
  have "sum_mset (image_mset f (mset (object_entries obj))) = sum_mset (image_mset f (mset obj))"
    by (simp add: mset_object_entries)
  then show ?thesis
    by (metis mset_map sum_mset_sum_list)
qed

lemma breakdown_key_single: "dd \<noteq> Combined \<Longrightarrow> breakdown_key dd = getDrillDownKey dd"
  by (cases dd) (auto simp: fun_eq_iff)

lemma sum_counts_Nil [simp]: "sum_counts [] = Some 0"
  by (simp add: sum_counts_def)

lemma build_row_sum_plain:
  assumes "plain_cells contacts" "build_row dd (pv, contacts) = Inr row"
  shows "breakdown_sum (breakdown row)
           = Some (length (filter (\<lambda>r. truthy (breakdown_key dd r)) contacts))"
proof (cases "dd = Combined")
  case True
  from build_row_combined [OF assms(1), of pv] obtain g
    where g: "group_rows (\<lambda>contact. column contact icp_column) [] contacts = Inr g"
      and row: "build_row Combined (pv, contacts)
             = Inr \<lparr>primaryValue = pv, total = length contacts,
                    breakdown = Nested
                      (map (\<lambda>(icpKey, icpContacts).
                              (icpKey, \<lparr>count = length icpContacts,
                                        lifecycleDistribution =
                                          count_by (\<lambda>contact. column contact lifecycle_column)
                                            icpContacts\<rparr>))
                           (object_entries g))\<rparr>"
    by blast
  have "sum_list (map (\<lambda>e. length (snd e)) (object_entries g))
          = length (filter (\<lambda>r. truthy (column r icp_column)) contacts)"
    using group_rows_sizes [OF g] by (simp add: sum_list_object_entries split_def)
  moreover have "breakdown_key Combined = (\<lambda>r. column r icp_column)"
    by (simp add: fun_eq_iff)
  ultimately show ?thesis
    using assms(2) row True by (auto simp: comp_def split_def)
next
  case False
  show ?thesis
  proof (cases "dd = DrillNone")
    case True
    with assms(2) show ?thesis
      by (auto simp: build_row_none truthy_def)
  next
    case single: False
    have "sum_counts (count_by (getDrillDownKey dd) contacts)
            = Some (length (filter (\<lambda>r. truthy (getDrillDownKey dd r)) contacts))"
      using plain_cells_drill_keys [OF assms(1)] by (rule count_by_plain(2))
    with assms(2) False single show ?thesis
      by (auto simp: build_row_single breakdown_key_single)
  qed
qed

lemma combined_buckets_plain:
  assumes "plain_cells contacts" "build_row Combined (pv, contacts) = Inr row"
  shows "\<exists>b. breakdown row = Nested b
           \<and> (\<forall>(k, bucket) \<in> set b.
                 k \<in> set (truthy_keys (map (\<lambda>r. column r icp_column) contacts))
               \<and> count bucket = length (filter (\<lambda>r. column r icp_column = Some k) contacts)
               \<and> 1 \<le> count bucket
               \<and> positive_counts (lifecycleDistribution bucket)
               \<and> sum_counts (lifecycleDistribution bucket)
                   = Some (length (filter (\<lambda>r. truthy (column r lifecycle_column))
                                    (filter (\<lambda>r. column r icp_column = Some k) contacts))))"
proof -
  let ?keys = "truthy_keys (map (\<lambda>contact. column contact icp_column) contacts)"
  have plain: "\<forall>k \<in> set ?keys. k \<notin> set proto_names"
    using assms(1) icp_lifecycle_required(1) by (rule plain_cells_keys)
  from group_rows_entries [OF plain] obtain g
    where g: "group_rows (\<lambda>contact. column contact icp_column) [] contacts = Inr g"
      and grp: "\<forall>(k, v) \<in> set g. k \<in> set ?keys
                  \<and> v = filter (\<lambda>r. column r icp_column = Some k) contacts"
    by blast
  from build_row_combined [OF assms(1), of pv] g assms(2)
  have row: "breakdown row = Nested
                      (map (\<lambda>(icpKey, icpContacts).
                              (icpKey, \<lparr>count = length icpContacts,
                                        lifecycleDistribution =
                                          count_by (\<lambda>contact. column contact lifecycle_column)
                                            icpContacts\<rparr>))
                           (object_entries g))"
    by auto
  have "k \<in> set ?keys
               \<and> count bucket = length (filter (\<lambda>r. column r icp_column = Some k) contacts)
               \<and> 1 \<le> count bucket
               \<and> positive_counts (lifecycleDistribution bucket)
               \<and> sum_counts (lifecycleDistribution bucket)
                   = Some (length (filter (\<lambda>r. truthy (column r lifecycle_column))
                                    (filter (\<lambda>r. column r icp_column = Some k) contacts)))"
    if "(k, bucket) \<in> set (map (\<lambda>(icpKey, icpContacts).
                              (icpKey, \<lparr>count = length icpContacts,
                                        lifecycleDistribution =
                                          count_by (\<lambda>contact. column contact lifecycle_column)
                                            icpContacts\<rparr>))
                           (object_entries g))" for k bucket
  proof -
    from that obtain cs where cs: "(k, cs) \<in> set g"
      and b: "bucket = \<lparr>count = length cs,
                 lifecycleDistribution = count_by (\<lambda>contact. column contact lifecycle_column) cs\<rparr>"
      by auto
    from grp cs have k: "k \<in> set ?keys"
      and cs_eq: "cs = filter (\<lambda>r. column r icp_column = Some k) contacts"
      by auto
    have ne: "cs \<noteq> []"
      using group_rows_nonempty [OF g] cs by auto
    have "plain_cells cs"
      using assms(1) by (rule plain_cells_subset) (auto simp: cs_eq)
    then have pl: "\<forall>k \<in> set (truthy_keys (map (\<lambda>r. column r lifecycle_column) cs)).
                     k \<notin> set proto_names"
      using icp_lifecycle_required(2) by (rule plain_cells_keys)
    from count_by_plain [OF pl] k ne show ?thesis
      by (simp add: b cs_eq [symmetric] Suc_le_eq)
  qed
  with row show ?thesis by blast
qed

lemma build_row_positive_plain:
  assumes "plain_cells contacts" "build_row dd (pv, contacts) = Inr row"
  shows "positive_breakdown (breakdown row)"
proof (cases "dd = Combined")
  case True
  with combined_buckets_plain [OF assms(1), of pv row] assms(2) obtain b
    where b: "breakdown row = Nested b"
      and each: "\<forall>(k, bucket) \<in> set b.
                 k \<in> set (truthy_keys (map (\<lambda>r. column r icp_column) contacts))
               \<and> 1 \<le> count bucket
               \<and> positive_counts (lifecycleDistribution bucket)"
    by fastforce
  then show ?thesis
    by (auto simp: list_all_iff in_truthy_keys)
next
  case False
  show ?thesis
  proof (cases "dd = DrillNone")
    case True
    with assms(2) show ?thesis by (auto simp: build_row_none)
  next
    case single: False
    have "positive_counts (count_by (getDrillDownKey dd) contacts)"
      using plain_cells_drill_keys [OF assms(1)] by (rule count_by_plain(1))
    with assms(2) False single show ?thesis
      by (auto simp: build_row_single)
  qed
qed

section \<open>Properties of the aggregation\<close>

lemma length_filter_eq_iff: "length (filter P xs) = length xs \<longleftrightarrow> (\<forall>x \<in> set xs. P x)"
proof
  assume eq: "length (filter P xs) = length xs"
  show "\<forall>x \<in> set xs. P x"
  proof (rule ccontr)
    assume "\<not> (\<forall>x \<in> set xs. P x)"
    then obtain x where "x \<in> set xs" "\<not> P x" by blast
    then have "length (filter P xs) < length xs" by (rule length_filter_less)
    with eq show False by simp
  qed
next
  assume "\<forall>x \<in> set xs. P x"
  then show "length (filter P xs) = length xs" by simp
qed

text \<open>
  C1 (as amended). When no cell is the name of a property of \<open>Object.prototype\<close>,
  \<open>aggregate\<close> returns rows, and for every row, in every drill-down mode, the counts of its
  breakdown (in combined mode the \<open>count\<close> fields of the ICP buckets) sum to the number of
  records of its group whose breakdown value is not empty. The sum is therefore at most the
  row's total, and it is the total exactly when no record of the group has an empty breakdown
  value.
\<close>

theorem breakdown_sum_counts_nonempty_values:
  assumes "plain_cells rawData"
  shows "\<exists>headers rows.
           aggregate rawData dim dd = Inr (headers, rows)
         \<and> (\<forall>row \<in> set rows.
               let members = group_records rawData dim (primaryValue row);
                   counted = filter (\<lambda>r. truthy (breakdown_key dd r)) members
               in total row = length members
                  \<and> breakdown_sum (breakdown row) = Some (length counted)
                  \<and> length counted \<le> total row
                  \<and> (length counted = total row
                       \<longleftrightarrow> (\<forall>r \<in> set members. truthy (breakdown_key dd r))))"
proof -
  from aggregate_plain [OF assms, of dim dd] obtain headers rows
    where agg: "aggregate rawData dim dd = Inr (headers, rows)"
    by blast
  have "let members = group_records rawData dim (primaryValue row);
            counted = filter (\<lambda>r. truthy (breakdown_key dd r)) members
        in total row = length members
           \<and> breakdown_sum (breakdown row) = Some (length counted)
           \<and> length counted \<le> total row
           \<and> (length counted = total row
                \<longleftrightarrow> (\<forall>r \<in> set members. truthy (breakdown_key dd r)))"
    if "row \<in> set rows" for row
  proof -
    from aggregate_row_plain [OF assms agg that]
    have b: "build_row dd (primaryValue row, group_records rawData dim (primaryValue row)) = Inr row"
      and p: "plain_cells (group_records rawData dim (primaryValue row))"
      by simp_all
    from build_row_fields [OF b] build_row_sum_plain [OF p b]
    show ?thesis
      by (simp add: Let_def length_filter_eq_iff)
  qed
  with agg show ?thesis by blast
qed

theorem breakdown_sum_counts_nonempty_values_witness:
  "plain_cells [contact ''g'' ''c'' ''High'' ''Lead'' ''CEO'' ''Sales'',
                contact ''g'' ''c'' ''Low'' ''MQL'' ''CTO'' '''']
   \<and> aggregate [contact ''g'' ''c'' ''High'' ''Lead'' ''CEO'' ''Sales'',
                 contact ''g'' ''c'' ''Low'' ''MQL'' ''CTO'' ''''] AdGroupName Department
       = Inr ([''Ad Group Name'', ''Total Contacts'', ''Sales''],
              [\<lparr>primaryValue = ''g'', total = 2, breakdown = Flat [(''Sales'', Num 1)]\<rparr>])
   \<and> breakdown_sum (Flat [(''Sales'', Num 1)]) = Some 1"
proof -
  let ?data = "[contact ''g'' ''c'' ''High'' ''Lead'' ''CEO'' ''Sales'',
                contact ''g'' ''c'' ''Low'' ''MQL'' ''CTO'' '''']"
  have plain: "plain_cells ?data"
    by code_simp
  have agg: "aggregate ?data AdGroupName Department
       = Inr ([''Ad Group Name'', ''Total Contacts'', ''Sales''],
              [\<lparr>primaryValue = ''g'', total = 2, breakdown = Flat [(''Sales'', Num 1)]\<rparr>])"
    by code_simp
  have counted: "length (filter (\<lambda>r. truthy (breakdown_key Department r))
                    (group_records ?data AdGroupName ''g'')) = 1"
    by code_simp
  from breakdown_sum_counts_nonempty_values [OF plain, of AdGroupName Department] agg counted
  have "breakdown_sum (Flat [(''Sales'', Num 1)]) = Some 1"
    by (simp add: Let_def)
  with plain agg show ?thesis by simp
qed

theorem breakdown_sum_counterexample:
  "aggregate [contact ''g'' ''c'' ''High'' ''Lead'' ''CEO'' ''Sales'',
              contact ''g'' ''c'' ''Low'' ''MQL'' ''CTO'' ''''] AdGroupName Department
     = Inr ([''Ad Group Name'', ''Total Contacts'', ''Sales''],
            [\<lparr>primaryValue = ''g'', total = 2, breakdown = Flat [(''Sales'', Num 1)]\<rparr>])
   \<and> breakdown_sum (breakdown \<lparr>primaryValue = ''g'', total = 2,
                                 breakdown = Flat [(''Sales'', Num 1)]\<rparr>)
       \<noteq> Some (total \<lparr>primaryValue = ''g'', total = 2, breakdown = Flat [(''Sales'', Num 1)]\<rparr>)"
  by code_simp

text \<open>
  C5 (as amended). When no cell is the name of a property of \<open>Object.prototype\<close>, the rows
  come in the order of \<open>Object.entries\<close> on the grouping object: first the groups whose
  dimension value is an array index (a canonical decimal numeral below \<open>2^32 - 1\<close>), in
  ascending numeric order, then the other groups in the order in which their value first
  occurs in the records. When no dimension value is an array index this is the order of first
  occurrence.
\<close>

theorem rows_in_object_entries_order:
  assumes "plain_cells rawData"
  shows "\<exists>headers rows.
           aggregate rawData dim dd = Inr (headers, rows)
         \<and> (let firsts = first_occurrences
                    (truthy_keys (map (\<lambda>r. column r (dimension_column dim)) rawData))
            in map primaryValue rows
                 = sort_key index_of_key (filter (\<lambda>k. array_index k \<noteq> None) firsts)
                   @ filter (\<lambda>k. array_index k = None) firsts
               \<and> ((\<forall>k \<in> set firsts. array_index k = None) \<longrightarrow> map primaryValue rows = firsts))"
proof -
  from aggregate_plain [OF assms, of dim dd] obtain headers rows
    where agg: "aggregate rawData dim dd = Inr (headers, rows)"
    by blast
  let ?firsts = "first_occurrences
                    (truthy_keys (map (\<lambda>r. column r (dimension_column dim)) rawData))"
  have order: "map primaryValue rows
                 = sort_key index_of_key (filter (\<lambda>k. array_index k \<noteq> None) ?firsts)
                   @ filter (\<lambda>k. array_index k = None) ?firsts"
    using aggregate_keys_plain [OF assms agg] by (simp add: Let_def)
  have "map primaryValue rows = ?firsts" if "\<forall>k \<in> set ?firsts. array_index k = None"
  proof -
    from that have "filter (\<lambda>k. array_index k \<noteq> None) ?firsts = []"
      and "filter (\<lambda>k. array_index k = None) ?firsts = ?firsts"
      by (simp_all add: filter_empty_conv filter_id_conv)
    with order show ?thesis by simp
  qed
  with agg order show ?thesis
    unfolding Let_def by blast
qed

theorem rows_in_object_entries_order_witness:
  "plain_cells [contact ''beta'' ''c'' ''High'' ''Lead'' ''CEO'' ''Sales'',
                contact ''10'' ''c'' ''Low'' ''MQL'' ''CTO'' ''Ops'',
                contact ''alpha'' ''c'' ''Low'' ''MQL'' ''CTO'' ''Ops'',
                contact ''9'' ''c'' ''Low'' ''MQL'' ''CTO'' ''Ops'',
                contact ''beta'' ''c'' ''Low'' ''MQL'' ''CTO'' ''Ops'']
   \<and> aggregate [contact ''beta'' ''c'' ''High'' ''Lead'' ''CEO'' ''Sales'',
                 contact ''10'' ''c'' ''Low'' ''MQL'' ''CTO'' ''Ops'',
                 contact ''alpha'' ''c'' ''Low'' ''MQL'' ''CTO'' ''Ops'',
                 contact ''9'' ''c'' ''Low'' ''MQL'' ''CTO'' ''Ops'',
                 contact ''beta'' ''c'' ''Low'' ''MQL'' ''CTO'' ''Ops''] AdGroupName DrillNone
       = Inr ([''Ad Group Name'', ''Total Contacts''],
              [\<lparr>primaryValue = ''9'', total = 1, breakdown = Flat []\<rparr>,
               \<lparr>primaryValue = ''10'', total = 1, breakdown = Flat []\<rparr>,
               \<lparr>primaryValue = ''beta'', total = 2, breakdown = Flat []\<rparr>,
               \<lparr>primaryValue = ''alpha'', total = 1, breakdown = Flat []\<rparr>])
   \<and> map primaryValue
        [\<lparr>primaryValue = ''9'', total = 1, breakdown = Flat []\<rparr>,
         \<lparr>primaryValue = ''10'', total = 1, breakdown = Flat []\<rparr>,
         \<lparr>primaryValue = ''beta'', total = 2, breakdown = Flat []\<rparr>,
         \<lparr>primaryValue = ''alpha'', total = 1, breakdown = Flat []\<rparr>]
       = sort_key index_of_key (filter (\<lambda>k. array_index k \<noteq> None)
           [''beta'', ''10'', ''alpha'', ''9''])
         @ filter (\<lambda>k. array_index k = None) [''beta'', ''10'', ''alpha'', ''9'']"
proof -
  let ?data = "[contact ''beta'' ''c'' ''High'' ''Lead'' ''CEO'' ''Sales'',
                contact ''10'' ''c'' ''Low'' ''MQL'' ''CTO'' ''Ops'',
                contact ''alpha'' ''c'' ''Low'' ''MQL'' ''CTO'' ''Ops'',
                contact ''9'' ''c'' ''Low'' ''MQL'' ''CTO'' ''Ops'',
                contact ''beta'' ''c'' ''Low'' ''MQL'' ''CTO'' ''Ops'']"
  have plain: "plain_cells ?data"
    by code_simp
  have firsts: "first_occurrences (truthy_keys (map (\<lambda>r. column r (dimension_column AdGroupName))
                  ?data)) = [''beta'', ''10'', ''alpha'', ''9'']"
    by code_simp
  have agg: "aggregate ?data AdGroupName DrillNone
       = Inr ([''Ad Group Name'', ''Total Contacts''],
              [\<lparr>primaryValue = ''9'', total = 1, breakdown = Flat []\<rparr>,
               \<lparr>primaryValue = ''10'', total = 1, breakdown = Flat []\<rparr>,
               \<lparr>primaryValue = ''beta'', total = 2, breakdown = Flat []\<rparr>,
               \<lparr>primaryValue = ''alpha'', total = 1, breakdown = Flat []\<rparr>])"
    by code_simp
  from rows_in_object_entries_order [OF plain, of AdGroupName DrillNone] agg firsts
  have "map primaryValue
        [\<lparr>primaryValue = ''9'', total = 1, breakdown = Flat []\<rparr>,
         \<lparr>primaryValue = ''10'', total = 1, breakdown = Flat []\<rparr>,
         \<lparr>primaryValue = ''beta'', total = 2, breakdown = Flat []\<rparr>,
         \<lparr>primaryValue = ''alpha'', total = 1, breakdown = Flat []\<rparr>]
       = sort_key index_of_key (filter (\<lambda>k. array_index k \<noteq> None)
           [''beta'', ''10'', ''alpha'', ''9''])
         @ filter (\<lambda>k. array_index k = None) [''beta'', ''10'', ''alpha'', ''9'']"
    by (simp add: Let_def)
  with plain agg show ?thesis by blast
qed

theorem first_seen_order_counterexample:
  "map primaryValue
     [\<lparr>primaryValue = ''1'', total = 1, breakdown = Flat []\<rparr>,
      \<lparr>primaryValue = ''2'', total = 1, breakdown = Flat []\<rparr>]
     \<noteq> first_occurrences (truthy_keys (map (\<lambda>r. column r (dimension_column AdGroupName))
           [contact ''2'' ''c'' ''High'' ''Lead'' ''CEO'' ''Sales'',
            contact ''1'' ''c'' ''Low'' ''MQL'' ''CTO'' ''Ops'']))
   \<and> aggregate [contact ''2'' ''c'' ''High'' ''Lead'' ''CEO'' ''Sales'',
                 contact ''1'' ''c'' ''Low'' ''MQL'' ''CTO'' ''Ops''] AdGroupName DrillNone
       = Inr ([''Ad Group Name'', ''Total Contacts''],
              [\<lparr>primaryValue = ''1'', total = 1, breakdown = Flat []\<rparr>,
               \<lparr>primaryValue = ''2'', total = 1, breakdown = Flat []\<rparr>])"
  by code_simp

section \<open>Properties of the data summary\<close>

lemma join_Nil_iff:
  assumes "\<forall>x \<in> set xs. x \<noteq> []"
  shows "join sep xs = [] \<longleftrightarrow> xs = []"
  using assms by (induction sep xs rule: join.induct) auto

lemma to_double_zero [simp]: "to_double 0 b = (0, 1)"
  by (simp add: to_double_def)

lemma show_nat_digit: "n < 10 \<Longrightarrow> show_nat n = [''0123456789'' ! n]"
  by (simp add: show_nat.simps)

lemma percentage_zero: "0 < t \<Longrightarrow> percentage t (Count 0) = ''0.0''"
  by (simp add: percentage_def toFixed1_def show_nat_digit)

lemma summary_cell_zero:
  assumes "0 < total row" "summary_count dd row col = Count 0"
  shows "summary_cell dd row col = col @ '': 0 (0.0%)''"
  using assms by (simp add: summary_cell_def show_count_def percentage_zero show_nat_digit)

lemma summary_cell_nonempty: "summary_cell dd row col \<noteq> []"
  by (simp add: summary_cell_def Let_def)

lemma summary_line_dynamic:
  "summary_line dd (a # b # dynamic) row
     = primaryValue row @ '' (Total: '' @ show_nat (total row) @ ''): ''
       @ (if dynamic = [] then ''No breakdown''
          else join '', '' (map (summary_cell dd row) dynamic))"
  using join_Nil_iff [of "map (summary_cell dd row) dynamic" "'', ''"]
  by (simp add: summary_line_def Let_def summary_cell_nonempty)

lemma set_dynamicHeaders:
  "set (dynamicHeaders rawData dd)
     = (if dd = DrillNone then {}
        else set (truthy_keys (map (breakdown_key dd) rawData)))"
proof (cases "dd = Combined")
  case True
  have "breakdown_key Combined = (\<lambda>r. column r icp_column)"
    by (simp add: fun_eq_iff)
  with True show ?thesis by (simp add: dynamicHeaders_def)
next
  case False
  then show ?thesis by (simp add: dynamicHeaders_def breakdown_key_single)
qed

lemma map_of_object_entries:
  assumes "distinct (map fst obj)"
  shows "map_of (object_entries obj) = map_of obj"
proof -
  have "distinct (map fst (object_entries obj))"
    using assms by (rule distinct_keys_object_entries)
  then show ?thesis
    using assms by (simp add: map_of_inject_set)
qed

lemma build_row_combined_breakdown:
  assumes "plain_cells contacts" "build_row Combined (pv, contacts) = Inr row"
    and "group_rows (\<lambda>contact. column contact icp_column) [] contacts = Inr g"
  shows "breakdown row
           = Nested (map (\<lambda>(icpKey, icpContacts).
                            (icpKey, \<lparr>count = length icpContacts,
                                      lifecycleDistribution =
                                        count_by (\<lambda>contact. column contact lifecycle_column)
                                          icpContacts\<rparr>))
                         (object_entries g))"
  using build_row_combined [OF assms(1), of pv] assms(2,3) by auto

lemma build_row_single_breakdown:
  assumes "dd \<noteq> DrillNone" "dd \<noteq> Combined" "build_row dd (pv, contacts) = Inr row"
  shows "breakdown row = Flat (count_by (getDrillDownKey dd) contacts)"
  using assms by (auto simp: build_row_single)

lemma summary_count_plain:
  assumes "plain_cells rawData"
    and "aggregate rawData dim dd = Inr (headers, rows)"
    and "row \<in> set rows"
    and "col \<in> set (dynamicHeaders rawData dd)"
  shows "summary_count dd row col
           = Count (length (filter (\<lambda>r. breakdown_key dd r = Some col)
                              (group_records rawData dim (primaryValue row))))"
proof -
  let ?members = "group_records rawData dim (primaryValue row)"
  from aggregate_row_plain [OF assms(1,2,3)]
  have b: "build_row dd (primaryValue row, ?members) = Inr row"
    and p: "plain_cells ?members"
    by simp_all
  from assms(4) have dd: "dd \<noteq> DrillNone"
    and col: "col \<in> set (truthy_keys (map (breakdown_key dd) rawData))"
    by (auto simp: set_dynamicHeaders split: if_splits)
  have ne: "col \<noteq> []"
    using col by (simp add: in_truthy_keys)
  show ?thesis
  proof (cases "dd = Combined")
    case True
    have key: "breakdown_key Combined = (\<lambda>r. column r icp_column)"
      by (simp add: fun_eq_iff)
    have plain_col: "col \<notin> set proto_names"
      using plain_cells_keys [OF assms(1) icp_lifecycle_required(1)] col True key by simp
    let ?keys = "truthy_keys (map (\<lambda>contact. column contact icp_column) ?members)"
    have plain: "\<forall>k \<in> set ?keys. k \<notin> set proto_names"
      using p icp_lifecycle_required(1) by (rule plain_cells_keys)
    from group_rows_plain [OF plain] obtain g
      where g: "group_rows (\<lambda>contact. column contact icp_column) [] ?members = Inr g"
        and keys: "map fst g = first_occurrences ?keys"
        and grp: "\<And>k. map_of g k
                  = (if k \<in> set ?keys
                     then Some (filter (\<lambda>r. column r icp_column = Some k) ?members) else None)"
      by blast
    have d: "distinct (map fst g)" by (simp add: keys)
    let ?bucket = "\<lambda>icpContacts. \<lparr>count = length icpContacts,
                      lifecycleDistribution =
                        count_by (\<lambda>contact. column contact lifecycle_column) icpContacts\<rparr>"
    from b True have "build_row Combined (primaryValue row, ?members) = Inr row"
      by simp
    from build_row_combined_breakdown [OF p this g]
    have row: "breakdown row = Nested (map (\<lambda>(icpKey, icpContacts). (icpKey, ?bucket icpContacts))
                                         (object_entries g))" .
    have look: "map_of (map (\<lambda>(icpKey, icpContacts). (icpKey, ?bucket icpContacts))
                          (object_entries g)) col
                  = map_option ?bucket (map_of g col)"
      by (simp add: map_of_map map_of_object_entries [OF d])
    have zero: "filter (\<lambda>r. column r icp_column = Some col) ?members = []" if "col \<notin> set ?keys"
      using that ne by (auto simp: in_truthy_keys filter_empty_conv)
    show ?thesis
      using True row look grp [of col] zero
      by (auto simp: summary_count_def js_get_plain [OF plain_col] key)
  next
    case False
    with dd obtain name where name: "name \<in> set requiredColumns"
      "getDrillDownKey dd = (\<lambda>r. column r name)"
      using getDrillDownKey_cases [of dd] by auto
    have key: "breakdown_key dd = getDrillDownKey dd"
      using False by (rule breakdown_key_single)
    have plain_col: "col \<notin> set proto_names"
      using plain_cells_keys [OF assms(1) name(1)] col key name(2) by simp
    have plain: "\<forall>k \<in> set (truthy_keys (map (getDrillDownKey dd) ?members)).
                    k \<notin> set proto_names"
      using p by (rule plain_cells_drill_keys)
    have row: "breakdown row = Flat (count_by (getDrillDownKey dd) ?members)"
      using dd False b by (rule build_row_single_breakdown)
    have zero: "filter (\<lambda>r. getDrillDownKey dd r = Some col) ?members = []"
      if "col \<notin> set (truthy_keys (map (getDrillDownKey dd) ?members))"
      using that ne by (auto simp: in_truthy_keys filter_empty_conv)
    show ?thesis
      using False row map_of_count_by [OF plain, of col] zero
      by (auto simp: summary_count_def js_get_plain [OF plain_col] key)
  qed
qed

text \<open>
  C4 (as amended). For the rows that \<open>aggregate\<close> returns, the summary is one line per row,
  joined by newline. A line is the primary value, \<open>(Total: n):\<close> and then, for every dynamic
  header column in order, \<open>col: count (pct%)\<close> joined by comma and space, or the words
  \<open>No breakdown\<close> when there is no dynamic header column. A column whose count is 0 is
  rendered as \<open>col: 0 (0.0%)\<close>, since the total of a row is positive and \<open>toFixed(1)\<close> prints
  one decimal. When no cell is the name of a property of \<open>Object.prototype\<close>, the count of
  a column is the number of records of the row's group with that breakdown value.
\<close>

theorem data_summary_lines:
  assumes "aggregate rawData dim dd = Inr (tableHeaders, tableRows)"
  shows "dataSummary dd tableHeaders tableRows
           = join [newline]
               (map (\<lambda>row. primaryValue row @ '' (Total: '' @ show_nat (total row) @ ''): ''
                      @ (if dynamicHeaders rawData dd = [] then ''No breakdown''
                         else join '', ''
                                (map (\<lambda>col. col @ '': '' @ show_count (summary_count dd row col)
                                        @ '' ('' @ percentage (total row) (summary_count dd row col)
                                        @ ''%)'')
                                     (dynamicHeaders rawData dd))))
                    tableRows)
       \<and> (\<forall>row \<in> set tableRows. \<forall>col.
             summary_count dd row col = Count 0 \<longrightarrow> summary_cell dd row col = col @ '': 0 (0.0%)'')
       \<and> (plain_cells rawData \<longrightarrow>
            (\<forall>row \<in> set tableRows. \<forall>col \<in> set (dynamicHeaders rawData dd).
               summary_count dd row col
                 = Count (length (filter (\<lambda>r. breakdown_key dd r = Some col)
                                    (group_records rawData dim (primaryValue row))))))"
proof -
  have lines: "dataSummary dd tableHeaders tableRows
           = join [newline]
               (map (\<lambda>row. primaryValue row @ '' (Total: '' @ show_nat (total row) @ ''): ''
                      @ (if dynamicHeaders rawData dd = [] then ''No breakdown''
                         else join '', ''
                                (map (\<lambda>col. col @ '': '' @ show_count (summary_count dd row col)
                                        @ '' ('' @ percentage (total row) (summary_count dd row col)
                                        @ ''%)'')
                                     (dynamicHeaders rawData dd))))
                    tableRows)"
  proof (cases "rawData = []")
    case True
    with assms have "tableRows = []" by (simp add: aggregate_def)
    then show ?thesis by (simp add: dataSummary_def)
  next
    case False
    with aggregate_Inr [OF assms]
    have hdr: "tableHeaders = dimension_column dim # ''Total Contacts'' # dynamicHeaders rawData dd"
      by auto
    have cell: "map (summary_cell dd row) cols
                  = map (\<lambda>col. col @ '': '' @ show_count (summary_count dd row col)
                          @ '' ('' @ percentage (total row) (summary_count dd row col) @ ''%)'') cols"
      for row cols
      by (simp add: summary_cell_def Let_def)
    have "summary_line dd tableHeaders
            = (\<lambda>row. primaryValue row @ '' (Total: '' @ show_nat (total row) @ ''): ''
                      @ (if dynamicHeaders rawData dd = [] then ''No breakdown''
                         else join '', ''
                                (map (\<lambda>col. col @ '': '' @ show_count (summary_count dd row col)
                                        @ '' ('' @ percentage (total row) (summary_count dd row col)
                                        @ ''%)'')
                                     (dynamicHeaders rawData dd))))"
      unfolding hdr fun_eq_iff summary_line_dynamic cell by simp
    then show ?thesis
      by (simp only: dataSummary_def)
  qed
  have zero: "summary_cell dd row col = col @ '': 0 (0.0%)''"
    if "row \<in> set tableRows" "summary_count dd row col = Count 0" for row col
    using aggregate_positive_totals [OF assms that(1)] that(2) by (rule summary_cell_zero)
  have counts: "summary_count dd row col
                 = Count (length (filter (\<lambda>r. breakdown_key dd r = Some col)
                                    (group_records rawData dim (primaryValue row))))"
    if "plain_cells rawData" "row \<in> set tableRows" "col \<in> set (dynamicHeaders rawData dd)"
    for row col
    using that(1) assms that(2,3) by (rule summary_count_plain)
  from lines zero counts show ?thesis by blast
qed

lemma data_summary_example:
  "dataSummary Department [''Ad Group Name'', ''Total Contacts'', ''Ops'', ''Sales'']
     [\<lparr>primaryValue = ''g1'', total = 1, breakdown = Flat [(''Sales'', Num 1)]\<rparr>,
      \<lparr>primaryValue = ''g2'', total = 1, breakdown = Flat [(''Ops'', Num 1)]\<rparr>]
    = ''g1 (Total: 1): Ops: 0 (0.0%), Sales: 1 (100.0%)'' @ [newline]
      @ ''g2 (Total: 1): Ops: 1 (100.0%), Sales: 0 (0.0%)''"
  by (simp add: dataSummary_def summary_line_def summary_cell_def summary_count_def js_get_def
      proto_functions_def percentage_def show_count_def to_double_def scale_up.simps
      scale_down.simps round_nearest_even_def toFixed1_def show_nat.simps Let_def)

theorem data_summary_lines_witness:
  "aggregate [contact ''g1'' ''c'' ''High'' ''Lead'' ''CEO'' ''Sales'',
              contact ''g2'' ''c'' ''Low'' ''MQL'' ''CTO'' ''Ops''] AdGroupName Department
     = Inr ([''Ad Group Name'', ''Total Contacts'', ''Ops'', ''Sales''],
            [\<lparr>primaryValue = ''g1'', total = 1, breakdown = Flat [(''Sales'', Num 1)]\<rparr>,
             \<lparr>primaryValue = ''g2'', total = 1, breakdown = Flat [(''Ops'', Num 1)]\<rparr>])
   \<and> summary_count Department
         \<lparr>primaryValue = ''g1'', total = 1, breakdown = Flat [(''Sales'', Num 1)]\<rparr> ''Ops''
       = Count 0
   \<and> summary_cell Department
         \<lparr>primaryValue = ''g1'', total = 1, breakdown = Flat [(''Sales'', Num 1)]\<rparr> ''Ops''
       = ''Ops: 0 (0.0%)''
   \<and> dataSummary Department [''Ad Group Name'', ''Total Contacts'', ''Ops'', ''Sales'']
         [\<lparr>primaryValue = ''g1'', total = 1, breakdown = Flat [(''Sales'', Num 1)]\<rparr>,
          \<lparr>primaryValue = ''g2'', total = 1, breakdown = Flat [(''Ops'', Num 1)]\<rparr>]
       = ''g1 (Total: 1): Ops: 0 (0.0%), Sales: 1 (100.0%)'' @ [newline]
         @ ''g2 (Total: 1): Ops: 1 (100.0%), Sales: 0 (0.0%)''"
proof -
  have agg: "aggregate [contact ''g1'' ''c'' ''High'' ''Lead'' ''CEO'' ''Sales'',
              contact ''g2'' ''c'' ''Low'' ''MQL'' ''CTO'' ''Ops''] AdGroupName Department
     = Inr ([''Ad Group Name'', ''Total Contacts'', ''Ops'', ''Sales''],
            [\<lparr>primaryValue = ''g1'', total = 1, breakdown = Flat [(''Sales'', Num 1)]\<rparr>,
             \<lparr>primaryValue = ''g2'', total = 1, breakdown = Flat [(''Ops'', Num 1)]\<rparr>])"
    by code_simp
  have zero: "summary_count Department
         \<lparr>primaryValue = ''g1'', total = 1, breakdown = Flat [(''Sales'', Num 1)]\<rparr> ''Ops''
       = Count 0"
    by code_simp
  from data_summary_lines [OF agg] zero
  have "summary_cell Department
         \<lparr>primaryValue = ''g1'', total = 1, breakdown = Flat [(''Sales'', Num 1)]\<rparr> ''Ops''
       = ''Ops: 0 (0.0%)''"
    by simp
  with agg zero data_summary_example show ?thesis by blast
qed

theorem zero_count_counterexample:
  "aggregate [contact ''g1'' ''c'' ''High'' ''Lead'' ''CEO'' ''Sales'',
              contact ''g2'' ''c'' ''Low'' ''MQL'' ''CTO'' ''Ops''] AdGroupName Department
     = Inr ([''Ad Group Name'', ''Total Contacts'', ''Ops'', ''Sales''],
            [\<lparr>primaryValue = ''g1'', total = 1, breakdown = Flat [(''Sales'', Num 1)]\<rparr>,
             \<lparr>primaryValue = ''g2'', total = 1, breakdown = Flat [(''Ops'', Num 1)]\<rparr>])
   \<and> summary_count Department
         \<lparr>primaryValue = ''g1'', total = 1, breakdown = Flat [(''Sales'', Num 1)]\<rparr> ''Ops''
       = Count 0
   \<and> summary_cell Department
         \<lparr>primaryValue = ''g1'', total = 1, breakdown = Flat [(''Sales'', Num 1)]\<rparr> ''Ops''
       \<noteq> ''Ops: 0 (0%)''
   \<and> summary_line Department [''Ad Group Name'', ''Total Contacts'', ''Ops'', ''Sales'']
         \<lparr>primaryValue = ''g1'', total = 1, breakdown = Flat [(''Sales'', Num 1)]\<rparr>
       = ''g1 (Total: 1): Ops: 0 (0.0%), Sales: 1 (100.0%)''"
proof -
  have agg: "aggregate [contact ''g1'' ''c'' ''High'' ''Lead'' ''CEO'' ''Sales'',
              contact ''g2'' ''c'' ''Low'' ''MQL'' ''CTO'' ''Ops''] AdGroupName Department
     = Inr ([''Ad Group Name'', ''Total Contacts'', ''Ops'', ''Sales''],
            [\<lparr>primaryValue = ''g1'', total = 1, breakdown = Flat [(''Sales'', Num 1)]\<rparr>,
             \<lparr>primaryValue = ''g2'', total = 1, breakdown = Flat [(''Ops'', Num 1)]\<rparr>])"
    by code_simp
  have rest: "summary_count Department
         \<lparr>primaryValue = ''g1'', total = 1, breakdown = Flat [(''Sales'', Num 1)]\<rparr> ''Ops''
       = Count 0
   \<and> summary_cell Department
         \<lparr>primaryValue = ''g1'', total = 1, breakdown = Flat [(''Sales'', Num 1)]\<rparr> ''Ops''
       \<noteq> ''Ops: 0 (0%)''
   \<and> summary_line Department [''Ad Group Name'', ''Total Contacts'', ''Ops'', ''Sales'']
         \<lparr>primaryValue = ''g1'', total = 1, breakdown = Flat [(''Sales'', Num 1)]\<rparr>
       = ''g1 (Total: 1): Ops: 0 (0.0%), Sales: 1 (100.0%)''"
    by (simp add: summary_line_def summary_cell_def summary_count_def js_get_def
      proto_functions_def percentage_def show_count_def to_double_def scale_up.simps
      scale_down.simps round_nearest_even_def toFixed1_def show_nat.simps Let_def)
  from agg rest show ?thesis by blast
qed

section \<open>Cells named like inherited properties\<close>

text \<open>
  First what holds without such cells: the number of rows, the totals of a single-column
  breakdown, the nesting of the combined breakdown, and the positive counts.
\<close>

lemma row_count_plain:
  assumes "plain_cells rawData" "aggregate rawData dim dd = Inr (headers, rows)"
  shows "length rows
           = card (set (truthy_keys (map (\<lambda>r. column r (dimension_column dim)) rawData)))"
proof -
  let ?firsts = "first_occurrences
                    (truthy_keys (map (\<lambda>r. column r (dimension_column dim)) rawData))"
  have "length (map primaryValue rows)
          = length (sort_key index_of_key (filter (\<lambda>k. array_index k \<noteq> None) ?firsts)
                    @ filter (\<lambda>k. array_index k = None) ?firsts)"
    using aggregate_keys_plain [OF assms] by (simp add: Let_def)
  also have "\<dots> = length ?firsts"
    using sum_length_filter_compl [of "\<lambda>k. array_index k \<noteq> None" ?firsts] by simp
  also have "\<dots> = card (set ?firsts)"
    by (rule distinct_card [symmetric]) simp
  finally show ?thesis by simp
qed

lemma single_column_totals_plain:
  assumes "plain_cells rawData" "aggregate rawData dim dd = Inr (headers, rows)"
    and "row \<in> set rows" "dd \<noteq> DrillNone" "dd \<noteq> Combined"
  shows "\<exists>c n. breakdown row = Flat c \<and> sum_counts c = Some n \<and> n \<le> total row
             \<and> ((\<forall>r \<in> set (group_records rawData dim (primaryValue row)).
                     truthy (getDrillDownKey dd r)) \<longrightarrow> n = total row)"
proof -
  let ?members = "group_records rawData dim (primaryValue row)"
  from aggregate_row_plain [OF assms(1,2,3)]
  have b: "build_row dd (primaryValue row, ?members) = Inr row"
    and p: "plain_cells ?members"
    by simp_all
  have flat: "breakdown row = Flat (count_by (getDrillDownKey dd) ?members)"
    using assms(4,5) b by (rule build_row_single_breakdown)
  have "sum_counts (count_by (getDrillDownKey dd) ?members)
          = Some (length (filter (\<lambda>r. truthy (getDrillDownKey dd r)) ?members))"
    using plain_cells_drill_keys [OF p] by (rule count_by_plain(2))
  with flat build_row_fields [OF b] show ?thesis
    by simp
qed

lemma combined_nesting_plain:
  assumes "plain_cells rawData" "aggregate rawData dim Combined = Inr (headers, rows)"
    and "row \<in> set rows"
  shows "\<exists>b. breakdown row = Nested b
           \<and> (\<forall>(k, bucket) \<in> set b.
                 count bucket
                   = length (filter (\<lambda>r. column r icp_column = Some k)
                               (group_records rawData dim (primaryValue row)))
               \<and> sum_counts (lifecycleDistribution bucket)
                   = Some (length (filter (\<lambda>r. truthy (column r lifecycle_column))
                                    (filter (\<lambda>r. column r icp_column = Some k)
                                       (group_records rawData dim (primaryValue row)))))
               \<and> ((\<forall>r \<in> set rawData. truthy (column r lifecycle_column))
                    \<longrightarrow> sum_counts (lifecycleDistribution bucket) = Some (count bucket)))"
proof -
  let ?members = "group_records rawData dim (primaryValue row)"
  from aggregate_row_plain [OF assms]
  have b: "build_row Combined (primaryValue row, ?members) = Inr row"
    and p: "plain_cells ?members"
    by simp_all
  from combined_buckets_plain [OF p b] obtain bs
    where bs: "breakdown row = Nested bs"
      and each: "\<forall>(k, bucket) \<in> set bs.
               count bucket = length (filter (\<lambda>r. column r icp_column = Some k) ?members)
               \<and> sum_counts (lifecycleDistribution bucket)
                   = Some (length (filter (\<lambda>r. truthy (column r lifecycle_column))
                                    (filter (\<lambda>r. column r icp_column = Some k) ?members)))"
    by fastforce
  have sub: "set ?members \<subseteq> set rawData"
    by (auto simp: group_records_def)
  have "sum_counts (lifecycleDistribution bucket) = Some (count bucket)"
    if "(k, bucket) \<in> set bs" "\<forall>r \<in> set rawData. truthy (column r lifecycle_column)"
    for k bucket
  proof -
    have "filter (\<lambda>r. truthy (column r lifecycle_column))
            (filter (\<lambda>r. column r icp_column = Some k) ?members)
          = filter (\<lambda>r. column r icp_column = Some k) ?members"
      using that(2) sub by (simp only: filter_filter) (rule filter_cong, auto)
    with each that(1) show ?thesis by auto
  qed
  with bs each show ?thesis by blast
qed

lemma positive_breakdown_plain:
  assumes "plain_cells rawData" "aggregate rawData dim dd = Inr (headers, rows)"
    and "row \<in> set rows"
  shows "positive_breakdown (breakdown row)"
proof -
  from aggregate_row_plain [OF assms]
  have "build_row dd (primaryValue row, group_records rawData dim (primaryValue row)) = Inr row"
    and "plain_cells (group_records rawData dim (primaryValue row))"
    by simp_all
  then show ?thesis by (rule build_row_positive_plain [rotated])
qed

text \<open>
  With such a cell as dimension value the grouping throws, whatever the other records are.
\<close>

lemma keys_obj_set_subset: "fst ` set (obj_set acc k v) \<subseteq> insert k (fst ` set acc)"
proof -
  have "fst ` set (obj_set acc k v) \<subseteq> fst ` insert (k, v) (set acc)"
    by (rule image_mono) (rule set_obj_set)
  then show ?thesis by simp
qed

lemma group_rows_throws:
  assumes "fst ` set acc \<inter> set proto_names = {}"
    and "\<exists>k \<in> set (truthy_keys (map keyOf rows)). k \<in> set proto_names"
  shows "group_rows keyOf acc rows = Inl TypeError"
  using assms
proof (induction rows arbitrary: acc)
  case Nil
  then show ?case by simp
next
  case (Cons r rows)
  from Cons.prems(2) obtain k
    where k: "k \<in> set (truthy_keys (map keyOf (r # rows)))" "k \<in> set proto_names"
    by blast
  show ?case
  proof (cases "truthy (keyOf r)")
    case False
    then have "truthy_keys (map keyOf (r # rows)) = truthy_keys (map keyOf rows)"
      by (simp add: truthy_keys_Cons)
    with k have rest: "\<exists>k \<in> set (truthy_keys (map keyOf rows)). k \<in> set proto_names"
      by auto
    have "group_rows keyOf acc (r # rows) = group_rows keyOf acc rows"
      using False by simp
    with Cons.IH [OF Cons.prems(1) rest] show ?thesis by simp
  next
    case True
    then have keys: "truthy_keys (map keyOf (r # rows))
                       = the (keyOf r) # truthy_keys (map keyOf rows)"
      by (simp add: truthy_keys_Cons)
    show ?thesis
    proof (cases "the (keyOf r) \<in> set proto_names")
      case inherited: True
      with Cons.prems(1) have "the (keyOf r) \<notin> fst ` set acc" by blast
      then have "map_of acc (the (keyOf r)) = None"
        by (simp add: map_of_eq_None_iff)
      with inherited have "push_to_group acc (the (keyOf r)) r = Inl TypeError"
        by (rule push_to_group_inherited)
      with True show ?thesis by simp
    next
      case False
      define acc' where "acc' = obj_set acc (the (keyOf r))
                     ((case map_of acc (the (keyOf r)) of Some rows \<Rightarrow> rows | None \<Rightarrow> []) @ [r])"
      have step: "push_to_group acc (the (keyOf r)) r = Inr acc'"
        unfolding acc'_def using False by (rule push_to_group_plain)
      have sub: "fst ` set acc' \<subseteq> insert (the (keyOf r)) (fst ` set acc)"
        unfolding acc'_def by (rule keys_obj_set_subset)
      have "x \<notin> set proto_names" if "x \<in> fst ` set acc'" for x
      proof -
        from sub that have "x \<in> insert (the (keyOf r)) (fst ` set acc)"
          by (rule subsetD)
        then have "x = the (keyOf r) \<or> x \<in> fst ` set acc"
          by (simp only: insert_iff)
        with False Cons.prems(1) show ?thesis
          by (auto simp only: disjoint_iff)
      qed
      then have inv: "fst ` set acc' \<inter> set proto_names = {}"
        by (simp only: disjoint_iff) blast
      from k keys False have rest: "\<exists>k \<in> set (truthy_keys (map keyOf rows)). k \<in> set proto_names"
        by auto
      have "group_rows keyOf acc (r # rows) = group_rows keyOf acc' rows"
        using True step by simp
      with Cons.IH [OF inv rest] show ?thesis by simp
    qed
  qed
qed

lemma aggregate_throws:
  assumes "r \<in> set rawData" "column r (dimension_column dim) = Some k" "k \<in> set proto_names"
  shows "aggregate rawData dim dd = Inl TypeError"
proof -
  have "k \<noteq> []"
    using assms(3) by (auto simp: proto_names_def proto_functions_def)
  with assms have "k \<in> set (truthy_keys (map (\<lambda>row. column row (dimension_column dim)) rawData))"
    by (auto simp: in_truthy_keys)
  with assms(3)
  have "\<exists>k \<in> set (truthy_keys (map (\<lambda>row. column row (dimension_column dim)) rawData)).
                     k \<in> set proto_names"
    by blast
  then have "group_rows (\<lambda>row. column row (dimension_column dim)) [] rawData = Inl TypeError"
    by (intro group_rows_throws) simp_all
  moreover have "rawData \<noteq> []"
    using assms(1) by auto
  ultimately show ?thesis
    by (simp add: aggregate_def)
qed

text \<open>
  C2. A dimension value that is the name of an inherited property ends the grouping with a
  TypeError, so there is no row for the one distinct dimension value; a breakdown value
  \<open>__proto__\<close> is not counted although it is not empty, so the values of the breakdown sum to
  less than the total of a group without empty values.
\<close>

theorem grouping_inherited_name:
  "aggregate [contact ''constructor'' ''c'' ''High'' ''Lead'' ''CEO'' ''Sales'']
     AdGroupName Department = Inl TypeError
   \<and> truthy_keys (map (\<lambda>r. column r (dimension_column AdGroupName))
        [contact ''constructor'' ''c'' ''High'' ''Lead'' ''CEO'' ''Sales'']) = [''constructor'']
   \<and> aggregate [contact ''g'' ''c'' ''High'' ''Lead'' ''CEO'' ''__proto__'']
        AdGroupName Department
       = Inr ([''Ad Group Name'', ''Total Contacts'', ''__proto__''],
              [\<lparr>primaryValue = ''g'', total = 1, breakdown = Flat []\<rparr>])
   \<and> sum_counts [] = Some 0"
  by code_simp

text \<open>
  C3. With ICP values \<open>High\<close> and \<open>Low\<close> and a lifecycle value in every record, a lifecycle
  value \<open>__proto__\<close> is not counted: the bucket \<open>Low\<close> has count 2 and an inner distribution
  whose values sum to 1.
\<close>

theorem combined_inherited_lifecycle:
  "aggregate [contact ''g'' ''c'' ''High'' ''Lead'' ''CEO'' ''Sales'',
              contact ''g'' ''c'' ''Low'' ''__proto__'' ''CTO'' ''Ops'',
              contact ''g'' ''c'' ''Low'' ''MQL'' ''CTO'' ''Ops''] AdGroupName Combined
     = Inr ([''Ad Group Name'', ''Total Contacts'', ''High'', ''Low''],
            [\<lparr>primaryValue = ''g'', total = 3,
               breakdown = Nested
                 [(''High'', \<lparr>count = 1, lifecycleDistribution = [(''Lead'', Num 1)]\<rparr>),
                  (''Low'', \<lparr>count = 2, lifecycleDistribution = [(''MQL'', Num 1)]\<rparr>)]\<rparr>])
   \<and> sum_counts [(''MQL'', Num 1)] = Some 1"
  by code_simp

text \<open>
  C10. A job title \<open>constructor\<close> becomes a key of the breakdown whose value is not a count but
  the source text of the inherited function followed by one \<open>1\<close> per record; the summary
  prints it with the percentage \<open>NaN\<close>.
\<close>

theorem breakdown_inherited_name:
  "aggregate [contact ''g'' ''c'' ''High'' ''Lead'' ''constructor'' ''Sales'',
              contact ''g'' ''c'' ''Low'' ''MQL'' ''constructor'' ''Ops''] AdGroupName JobTitle
     = Inr ([''Ad Group Name'', ''Total Contacts'', ''constructor''],
            [\<lparr>primaryValue = ''g'', total = 2,
               breakdown = Flat [(''constructor'', Function_text ''constructor'' 2)]\<rparr>])
   \<and> \<not> positive_breakdown (Flat [(''constructor'', Function_text ''constructor'' 2)])
   \<and> dataSummary JobTitle [''Ad Group Name'', ''Total Contacts'', ''constructor'']
        [\<lparr>primaryValue = ''g'', total = 2,
           breakdown = Flat [(''constructor'', Function_text ''constructor'' 2)]\<rparr>]
       = ''g (Total: 2): constructor: function Object() { [native code] }11 (NaN%)''"
  by code_simp

end
